theory Spec2Isabelle
  imports Complex_Main "HOL-Library.Finite_Map" "HOL-Library.Multiset" "HOL-Library.Word"
    "HOL-Library.Log_Nat"
begin

section \<open>Floating-point values\<close>

text \<open>
  Objective values are Python floats. A float is a real number (the doubles are real
  numbers) or the value "not a number"; the infinities are left out. The ranking only
  compares floats, and every comparison with NaN is false, as in Python. Where the code
  computes with floats, the operations on doubles are parameters of the model (see
  "Machine arithmetic").
\<close>

datatype fnum = Fin real | NaN

fun fle :: "fnum \<Rightarrow> fnum \<Rightarrow> bool" where
  "fle (Fin a) (Fin b) = (a \<le> b)"
| "fle _ _ = False"

fun flt :: "fnum \<Rightarrow> fnum \<Rightarrow> bool" where
  "flt (Fin a) (Fin b) = (a < b)"
| "flt _ _ = False"

definition fge :: "fnum \<Rightarrow> fnum \<Rightarrow> bool" where
  "fge a b = fle b a"

definition fgt :: "fnum \<Rightarrow> fnum \<Rightarrow> bool" where
  "fgt a b = flt b a"

section \<open>Pareto ranking (data/pareto\_global.py, data/simulation/milp-mobile/pareto\_analysis.py)\<close>

text \<open>
  The objective dictionary with its three keys, and a candidate dictionary. The key "id"
  is the field \<open>cid\<close>; "rank" is absent (\<open>None\<close>) until the sort assigns it. The MILP-only
  loader writes no "generation" key.
\<close>

record objective_vector =
  latency :: fnum
  energy :: fnum
  throughput :: fnum

record 'i candidate =
  cid :: 'i
  generation :: "int option"
  origin :: string
  objectives :: objective_vector
  rank :: "nat option"

definition dominates :: "objective_vector \<Rightarrow> objective_vector \<Rightarrow> bool" where
  "dominates a b =
     (let better_or_equal =
            (fle (latency a) (latency b) \<and>
             fle (energy a) (energy b) \<and>
             fge (throughput a) (throughput b));
          strictly_better =
            (flt (latency a) (latency b) \<or>
             flt (energy a) (energy b) \<or>
             fgt (throughput a) (throughput b))
      in better_or_equal \<and> strictly_better)"

text \<open>
  The dictionaries \<open>S\<close> (id to the list of dominated candidates) and \<open>n\<close> (id to the
  domination counter) are finite maps; reading a missing key is Python's KeyError, the
  result \<open>None\<close>.

  Candidates are dictionaries that the Python code shares by reference between the
  population, the lists in \<open>S\<close> and the fronts, and "rank" is written in place. The model
  copies values instead: a candidate enters a front with the rank written at that moment.
  The code writes the rank of an object only when it appends the object to a front, it
  never reads a rank, and it appends an object at most once, so the returned lists hold the
  same values.
\<close>

type_synonym 'i dominated_sets = "('i, 'i candidate list) fmap"
type_synonym 'i counters = "('i, int) fmap"

text \<open>The body of the inner loop \<open>for q in population\<close> of the first pass.\<close>

fun compare_step ::
  "'i candidate \<Rightarrow> 'i candidate \<Rightarrow> 'i dominated_sets \<times> 'i counters
     \<Rightarrow> ('i dominated_sets \<times> 'i counters) option" where
  "compare_step p q (S, n) =
     (if cid p = cid q then Some (S, n)
      else if dominates (objectives p) (objectives q) then
        (case fmlookup S (cid p) of
           None \<Rightarrow> None
         | Some l \<Rightarrow> Some (fmupd (cid p) (l @ [q]) S, n))
      else if dominates (objectives q) (objectives p) then
        (case fmlookup n (cid p) of
           None \<Rightarrow> None
         | Some c \<Rightarrow> Some (S, fmupd (cid p) (c + 1) n))
      else Some (S, n))"

fun compare_all ::
  "'i candidate \<Rightarrow> 'i candidate list \<Rightarrow> 'i dominated_sets \<times> 'i counters
     \<Rightarrow> ('i dominated_sets \<times> 'i counters) option" where
  "compare_all p [] st = Some st"
| "compare_all p (q # qs) st =
     (case compare_step p q st of
        None \<Rightarrow> None
      | Some st' \<Rightarrow> compare_all p qs st')"

text \<open>The body of the outer loop \<open>for p in population\<close>; the third component is \<open>fronts[0]\<close>.\<close>

fun rank_first ::
  "'i candidate \<Rightarrow> 'i candidate list
     \<Rightarrow> 'i dominated_sets \<times> 'i counters \<times> 'i candidate list
     \<Rightarrow> ('i dominated_sets \<times> 'i counters \<times> 'i candidate list) option" where
  "rank_first p population (S, n, front0) =
     (case compare_all p population (fmupd (cid p) [] S, fmupd (cid p) 0 n) of
        None \<Rightarrow> None
      | Some (S', n') \<Rightarrow>
          (case fmlookup n' (cid p) of
             None \<Rightarrow> None
           | Some c \<Rightarrow>
               if c = 0 then Some (S', n', front0 @ [p\<lparr>rank := Some 0\<rparr>])
               else Some (S', n', front0)))"

fun first_pass ::
  "'i candidate list \<Rightarrow> 'i candidate list
     \<Rightarrow> 'i dominated_sets \<times> 'i counters \<times> 'i candidate list
     \<Rightarrow> ('i dominated_sets \<times> 'i counters \<times> 'i candidate list) option" where
  "first_pass [] population st = Some st"
| "first_pass (p # ps) population st =
     (case rank_first p population st of
        None \<Rightarrow> None
      | Some st' \<Rightarrow> first_pass ps population st')"

text \<open>
  The second pass. \<open>release\<close> is the loop \<open>for q in S[p["id"]]\<close>, \<open>sweep\<close> the loop
  \<open>for p in fronts[i]\<close>; both thread the counters and \<open>next_front\<close>.
\<close>

fun release ::
  "nat \<Rightarrow> 'i candidate list \<Rightarrow> 'i counters \<times> 'i candidate list
     \<Rightarrow> ('i counters \<times> 'i candidate list) option" where
  "release i [] st = Some st"
| "release i (q # qs) (n, next_front) =
     (case fmlookup n (cid q) of
        None \<Rightarrow> None
      | Some c \<Rightarrow>
          release i qs
            (fmupd (cid q) (c - 1) n,
             if c - 1 = 0 then next_front @ [q\<lparr>rank := Some (i + 1)\<rparr>] else next_front))"

fun sweep ::
  "'i dominated_sets \<Rightarrow> nat \<Rightarrow> 'i candidate list \<Rightarrow> 'i counters \<times> 'i candidate list
     \<Rightarrow> ('i counters \<times> 'i candidate list) option" where
  "sweep S i [] st = Some st"
| "sweep S i (p # ps) st =
     (case fmlookup S (cid p) of
        None \<Rightarrow> None
      | Some qs \<Rightarrow>
          (case release i qs st of
             None \<Rightarrow> None
           | Some st' \<Rightarrow> sweep S i ps st'))"

text \<open>
  The number of ids whose counter is still positive: it bounds the candidates that the
  second pass can still append, and makes the \<open>while\<close> loop terminate.
\<close>

definition pending :: "'i counters \<Rightarrow> nat" where
  "pending n = card {k. \<exists>c. fmlookup n k = Some c \<and> 0 < c}"

lemma pending_finite: "finite {k. \<exists>c. fmlookup n k = Some c \<and> 0 < c}"
proof (rule finite_subset)
  show "{k. \<exists>c. fmlookup n k = Some c \<and> 0 < c} \<subseteq> fmdom' n"
    by (auto intro: fmdom'I)
qed simp

lemma pending_decrement:
  assumes "fmlookup n k = Some c"
  shows "pending (fmupd k (c - 1) n) + (if c - 1 = 0 then 1 else 0) \<le> pending n"
proof (cases "c - 1 = 0")
  case True
  then have c: "c = 1" by simp
  have eq: "{j. \<exists>d. fmlookup (fmupd k (c - 1) n) j = Some d \<and> 0 < d}
              = {j. \<exists>d. fmlookup n j = Some d \<and> 0 < d} - {k}"
    using c by auto
  have mem: "k \<in> {j. \<exists>d. fmlookup n j = Some d \<and> 0 < d}"
    using assms c by simp
  have "card ({j. \<exists>d. fmlookup n j = Some d \<and> 0 < d} - {k}) + 1
          = card {j. \<exists>d. fmlookup n j = Some d \<and> 0 < d}"
    using card_Suc_Diff1 [OF pending_finite mem] by simp
  moreover have "pending (fmupd k (c - 1) n)
                   = card ({j. \<exists>d. fmlookup n j = Some d \<and> 0 < d} - {k})"
    unfolding pending_def eq ..
  ultimately show ?thesis
    using True unfolding pending_def [of n] by simp
next
  case False
  have "{j. \<exists>d. fmlookup (fmupd k (c - 1) n) j = Some d \<and> 0 < d}
          \<subseteq> {j. \<exists>d. fmlookup n j = Some d \<and> 0 < d}"
    using assms by (auto split: if_splits)
  then have "pending (fmupd k (c - 1) n) \<le> pending n"
    unfolding pending_def by (rule card_mono [OF pending_finite])
  then show ?thesis
    using False by simp
qed

lemma release_pending:
  "release i qs (n, nf) = Some (n', nf') \<Longrightarrow> pending n' + length nf' \<le> pending n + length nf"
proof (induction qs arbitrary: n nf)
  case Nil
  then show ?case by simp
next
  case (Cons q qs)
  from Cons.prems obtain c where c: "fmlookup n (cid q) = Some c"
    and r: "release i qs (fmupd (cid q) (c - 1) n,
               if c - 1 = 0 then nf @ [q\<lparr>rank := Some (i + 1)\<rparr>] else nf) = Some (n', nf')"
    by (auto split: option.splits)
  from Cons.IH [OF r] pending_decrement [OF c]
  show ?case by (auto split: if_splits)
qed

lemma sweep_pending:
  "sweep S i ps (n, nf) = Some (n', nf') \<Longrightarrow> pending n' + length nf' \<le> pending n + length nf"
proof (induction ps arbitrary: n nf)
  case Nil
  then show ?case by simp
next
  case (Cons p ps)
  from Cons.prems obtain qs n1 nf1 where
    r: "release i qs (n, nf) = Some (n1, nf1)" and s: "sweep S i ps (n1, nf1) = Some (n', nf')"
    by (auto split: option.splits)
  from release_pending [OF r] Cons.IH [OF s]
  show ?case by simp
qed

text \<open>
  The loop \<open>while fronts[i]\<close>. The Python list \<open>fronts\<close> is \<open>earlier @ [front]\<close>: \<open>front\<close> is
  \<open>fronts[i]\<close> and \<open>earlier\<close> the fronts before it, so that \<open>fronts[:-1]\<close> is \<open>earlier\<close> when the
  loop ends on an empty \<open>fronts[i]\<close>.
\<close>

function while_fronts ::
  "'i dominated_sets \<Rightarrow> 'i counters \<Rightarrow> nat \<Rightarrow> 'i candidate list list \<Rightarrow> 'i candidate list
     \<Rightarrow> 'i candidate list list option" where
  "while_fronts S n i earlier [] = Some earlier"
| "while_fronts S n i earlier (p # ps) =
     (case sweep S i (p # ps) (n, []) of
        None \<Rightarrow> None
      | Some (n', next_front) \<Rightarrow>
          while_fronts S n' (i + 1) (earlier @ [p # ps]) next_front)"
  by pat_completeness auto
termination
proof (relation "measure (\<lambda>(S, n, i, earlier, front). if front = [] then 0 else Suc (pending n))")
  show "wf (measure (\<lambda>(S, n, i, earlier, front).
              if front = [] then 0 else Suc (pending (n :: ('a, int) fmap))))"
    by simp
next
  fix S :: "'a dominated_sets" and n :: "'a counters" and i :: nat
    and earlier :: "'a candidate list list" and p :: "'a candidate" and ps x2 x y
  assume "sweep S i (p # ps) (n, []) = Some x2" and "(x, y) = x2"
  then have "sweep S i (p # ps) (n, []) = Some (x, y)" by simp
  from sweep_pending [OF this]
  show "((S, x, i + 1, earlier @ [p # ps], y), S, n, i, earlier, p # ps)
          \<in> measure (\<lambda>(S, n, i, earlier, front). if front = [] then 0 else Suc (pending n))"
    by (cases y) auto
qed

definition fast_nondominated_sort :: "'i candidate list \<Rightarrow> 'i candidate list list option" where
  "fast_nondominated_sort population =
     (case first_pass population population (fmempty, fmempty, []) of
        None \<Rightarrow> None
      | Some (S, n, front0) \<Rightarrow> while_fronts S n 0 [] front0)"

text \<open>A candidate as the MILP loader builds it, for the concrete populations below.\<close>

definition candidate_of :: "string \<Rightarrow> real \<Rightarrow> real \<Rightarrow> real \<Rightarrow> string candidate" where
  "candidate_of i l e t =
     \<lparr>cid = i, generation = None, origin = ''MILP'',
      objectives = \<lparr>latency = Fin l, energy = Fin e, throughput = Fin t\<rparr>,
      rank = None\<rparr>"

section \<open>Dominance is a strict partial order\<close>

lemma dominates_irrefl: "\<not> dominates a a"
  by (cases "latency a"; cases "energy a"; cases "throughput a")
     (auto simp: dominates_def fge_def fgt_def)

lemma dominates_asym: "dominates a b \<Longrightarrow> \<not> dominates b a"
  by (cases "latency a"; cases "energy a"; cases "throughput a";
      cases "latency b"; cases "energy b"; cases "throughput b")
     (auto simp: dominates_def fge_def fgt_def)

lemma dominates_trans: "dominates a b \<Longrightarrow> dominates b c \<Longrightarrow> dominates a c"
  by (cases "latency a"; cases "energy a"; cases "throughput a";
      cases "latency b"; cases "energy b"; cases "throughput b";
      cases "latency c"; cases "energy c"; cases "throughput c")
     (auto simp: dominates_def fge_def fgt_def)

subsection \<open>The first pass in closed form\<close>

text \<open>
  What the inner loop computes for a candidate \<open>p\<close>: the list \<open>S[p["id"]]\<close> and the counter
  \<open>n[p["id"]]\<close>, as filters of the population.
\<close>

definition dominated_by :: "'i candidate \<Rightarrow> 'i candidate list \<Rightarrow> 'i candidate list" where
  "dominated_by p qs =
     [q \<leftarrow> qs. cid q \<noteq> cid p \<and> dominates (objectives p) (objectives q)]"

definition dominator_count :: "'i candidate \<Rightarrow> 'i candidate list \<Rightarrow> int" where
  "dominator_count p qs =
     int (length [q \<leftarrow> qs. cid q \<noteq> cid p \<and> \<not> dominates (objectives p) (objectives q)
                             \<and> dominates (objectives q) (objectives p)])"

lemma fmupd_same: "fmlookup m k = Some v \<Longrightarrow> fmupd k v m = m"
  by (rule fmap_ext) auto

lemma compare_all_closed:
  "fmlookup S (cid p) = Some l \<Longrightarrow> fmlookup n (cid p) = Some c \<Longrightarrow>
   compare_all p qs (S, n)
     = Some (fmupd (cid p) (l @ dominated_by p qs) S,
             fmupd (cid p) (c + dominator_count p qs) n)"
proof (induction qs arbitrary: S n l c)
  case Nil
  then show ?case by (simp add: dominated_by_def dominator_count_def fmupd_same)
next
  case (Cons q qs)
  show ?case
  proof (cases "cid p = cid q")
    case True
    then show ?thesis
      using Cons.IH [OF Cons.prems] by (simp add: dominated_by_def dominator_count_def)
  next
    case ne: False
    show ?thesis
    proof (cases "dominates (objectives p) (objectives q)")
      case True
      have "compare_all p qs (fmupd (cid p) (l @ [q]) S, n)
              = Some (fmupd (cid p) ((l @ [q]) @ dominated_by p qs) (fmupd (cid p) (l @ [q]) S),
                      fmupd (cid p) (c + dominator_count p qs) n)"
        by (rule Cons.IH) (simp_all add: Cons.prems)
      then show ?thesis
        using ne True Cons.prems by (simp add: dominated_by_def dominator_count_def)
    next
      case nd: False
      show ?thesis
      proof (cases "dominates (objectives q) (objectives p)")
        case True
        have "compare_all p qs (S, fmupd (cid p) (c + 1) n)
                = Some (fmupd (cid p) (l @ dominated_by p qs) S,
                        fmupd (cid p) ((c + 1) + dominator_count p qs) (fmupd (cid p) (c + 1) n))"
          by (rule Cons.IH) (simp_all add: Cons.prems)
        then show ?thesis
          using ne nd True Cons.prems
          by (simp add: dominated_by_def dominator_count_def add.assoc)
      next
        case False
        then show ?thesis
          using ne nd Cons.IH [OF Cons.prems] by (simp add: dominated_by_def dominator_count_def)
      qed
    qed
  qed
qed

lemma rank_first_closed:
  "rank_first p pop (S, n, f0)
     = Some (fmupd (cid p) (dominated_by p pop) S,
             fmupd (cid p) (dominator_count p pop) n,
             if dominator_count p pop = 0 then f0 @ [p\<lparr>rank := Some 0\<rparr>] else f0)"
proof -
  have "compare_all p pop (fmupd (cid p) [] S, fmupd (cid p) 0 n)
          = Some (fmupd (cid p) ([] @ dominated_by p pop) (fmupd (cid p) [] S),
                  fmupd (cid p) (0 + dominator_count p pop) (fmupd (cid p) 0 n))"
    by (rule compare_all_closed) simp_all
  then show ?thesis by simp
qed

definition first_sets ::
  "'i candidate list \<Rightarrow> 'i candidate list \<Rightarrow> 'i dominated_sets \<Rightarrow> 'i dominated_sets" where
  "first_sets ps pop S = fold (\<lambda>p. fmupd (cid p) (dominated_by p pop)) ps S"

definition first_counters ::
  "'i candidate list \<Rightarrow> 'i candidate list \<Rightarrow> 'i counters \<Rightarrow> 'i counters" where
  "first_counters ps pop n = fold (\<lambda>p. fmupd (cid p) (dominator_count p pop)) ps n"

definition first_front :: "'i candidate list \<Rightarrow> 'i candidate list \<Rightarrow> 'i candidate list" where
  "first_front ps pop = map (\<lambda>p. p\<lparr>rank := Some 0\<rparr>) [p \<leftarrow> ps. dominator_count p pop = 0]"

lemma first_pass_closed:
  "first_pass ps pop (S, n, f0)
     = Some (first_sets ps pop S, first_counters ps pop n, f0 @ first_front ps pop)"
  by (induction ps arbitrary: S n f0)
     (simp_all add: rank_first_closed first_sets_def first_counters_def first_front_def
                del: rank_first.simps)

lemma fold_fmupd_lookup:
  "fmlookup (fold (\<lambda>p. fmupd (cid p) (f p)) ps m) k
     = (case filter (\<lambda>p. cid p = k) ps of [] \<Rightarrow> fmlookup m k | x # xs \<Rightarrow> Some (f (last (x # xs))))"
proof (induction ps arbitrary: m)
  case Nil
  show ?case by simp
next
  case (Cons p ps)
  show ?case
    by (simp add: Cons.IH split: list.splits)
qed

lemma fold_fmupd_dom:
  "fmdom' (fold (\<lambda>p. fmupd (cid p) (f p)) ps m) = fmdom' m \<union> cid ` set ps"
  by (induction ps arbitrary: m) auto

subsection \<open>The sort returns on every population\<close>

definition set_rank :: "nat \<Rightarrow> 'i candidate \<Rightarrow> 'i candidate" where
  "set_rank r p = p\<lparr>rank := Some r\<rparr>"

lemma cid_set_rank [simp]: "cid (set_rank r p) = cid p"
  by (simp add: set_rank_def)

lemma objectives_set_rank [simp]: "objectives (set_rank r p) = objectives p"
  by (simp add: set_rank_def)

definition closed_sets :: "'i candidate list \<Rightarrow> 'i dominated_sets \<Rightarrow> 'i counters \<Rightarrow> bool" where
  "closed_sets pop S n \<longleftrightarrow>
     (\<forall>p \<in> set pop. \<exists>qs. fmlookup S (cid p) = Some qs \<and> set qs \<subseteq> set pop)
     \<and> cid ` set pop \<subseteq> fmdom' n"

lemma release_total:
  "cid ` set qs \<subseteq> fmdom' n \<Longrightarrow>
   \<exists>n' new. release i qs (n, nf) = Some (n', nf @ new) \<and> fmdom' n' = fmdom' n
             \<and> set new \<subseteq> set_rank (i + 1) ` set qs"
proof (induction qs arbitrary: n nf)
  case Nil
  then show ?case by simp
next
  case (Cons q qs)
  from Cons.prems obtain c where c: "fmlookup n (cid q) = Some c"
    by (auto simp: fmlookup_dom'_iff)
  let ?n1 = "fmupd (cid q) (c - 1) n"
  let ?nf1 = "if c - 1 = 0 then nf @ [q\<lparr>rank := Some (i + 1)\<rparr>] else nf"
  have dom1: "fmdom' ?n1 = fmdom' n"
    using c by (auto simp: fmlookup_dom'_iff)
  with Cons.prems have "cid ` set qs \<subseteq> fmdom' ?n1" by simp
  from Cons.IH [OF this, of ?nf1] obtain n' new where
    r: "release i qs (?n1, ?nf1) = Some (n', ?nf1 @ new)" and d: "fmdom' n' = fmdom' ?n1"
    and s: "set new \<subseteq> set_rank (i + 1) ` set qs"
    by blast
  show ?case
  proof (cases "c - 1 = 0")
    case True
    have "release i (q # qs) (n, nf) = Some (n', nf @ (set_rank (i + 1) q # new))"
      using c r True by (simp add: set_rank_def)
    moreover have "set (set_rank (i + 1) q # new) \<subseteq> set_rank (i + 1) ` set (q # qs)"
      using s by auto
    ultimately show ?thesis using d dom1 by blast
  next
    case False
    have "release i (q # qs) (n, nf) = Some (n', nf @ new)"
      using c r False by simp
    moreover have "set new \<subseteq> set_rank (i + 1) ` set (q # qs)"
      using s by auto
    ultimately show ?thesis using d dom1 by blast
  qed
qed

lemma sweep_total:
  assumes "closed_sets pop S n" and "cid ` set ps \<subseteq> cid ` set pop"
  shows "\<exists>n' new. sweep S i ps (n, nf) = Some (n', nf @ new) \<and> fmdom' n' = fmdom' n
                   \<and> set new \<subseteq> set_rank (i + 1) ` set pop"
  using assms
proof (induction ps arbitrary: n nf)
  case Nil
  then show ?case by simp
next
  case (Cons p ps)
  from Cons.prems obtain p0 where p0: "p0 \<in> set pop" "cid p = cid p0" by auto
  with Cons.prems(1) obtain qs where qs: "fmlookup S (cid p) = Some qs" "set qs \<subseteq> set pop"
    by (auto simp: closed_sets_def)
  have "cid ` set qs \<subseteq> fmdom' n"
    using qs(2) Cons.prems(1) unfolding closed_sets_def by blast
  from release_total [OF this, of i nf] obtain n1 new1 where
    r: "release i qs (n, nf) = Some (n1, nf @ new1)" and d1: "fmdom' n1 = fmdom' n"
    and s1: "set new1 \<subseteq> set_rank (i + 1) ` set qs"
    by blast
  have cl: "closed_sets pop S n1"
    using Cons.prems(1) d1 by (simp add: closed_sets_def)
  have "cid ` set ps \<subseteq> cid ` set pop" using Cons.prems(2) by auto
  from Cons.IH [OF cl this, of "nf @ new1"] obtain n' new2 where
    s: "sweep S i ps (n1, nf @ new1) = Some (n', (nf @ new1) @ new2)"
    and d2: "fmdom' n' = fmdom' n1" and s2: "set new2 \<subseteq> set_rank (i + 1) ` set pop"
    by blast
  have "sweep S i (p # ps) (n, nf) = Some (n', nf @ (new1 @ new2))"
    using qs(1) r s by simp
  moreover have "set (new1 @ new2) \<subseteq> set_rank (i + 1) ` set pop"
    using s1 s2 qs(2) by (simp add: subset_iff image_iff) blast
  ultimately show ?case using d1 d2 by blast
qed

lemma while_fronts_total:
  assumes "closed_sets pop S n" and "set front \<subseteq> set_rank i ` set pop"
  shows "\<exists>fronts. while_fronts S n i earlier front = Some (earlier @ fronts)
           \<and> (\<forall>j < length fronts. set (fronts ! j) \<subseteq> set_rank (i + j) ` set pop)
           \<and> concat (take 1 fronts) = front"
  using assms
proof (induction S n i earlier front rule: while_fronts.induct)
  case (1 S n i earlier)
  then show ?case by simp
next
  case (2 S n i earlier p ps)
  have "cid ` set (p # ps) \<subseteq> cid ` set pop"
    using "2.prems"(2) by force
  from sweep_total [OF "2.prems"(1) this, of i "[]"] obtain n' new where
    s: "sweep S i (p # ps) (n, []) = Some (n', new)" and d: "fmdom' n' = fmdom' n"
    and sub: "set new \<subseteq> set_rank (i + 1) ` set pop"
    by auto
  have cl: "closed_sets pop S n'"
    using "2.prems"(1) d by (simp add: closed_sets_def)
  from "2.IH" [OF s refl cl sub] obtain fronts where
    w: "while_fronts S n' (i + 1) (earlier @ [p # ps]) new = Some ((earlier @ [p # ps]) @ fronts)"
    and f: "\<forall>j < length fronts. set (fronts ! j) \<subseteq> set_rank (i + 1 + j) ` set pop"
    by blast
  have "while_fronts S n i earlier (p # ps) = Some (earlier @ ((p # ps) # fronts))"
    using s w by simp
  moreover have "\<forall>j < length ((p # ps) # fronts).
                   set (((p # ps) # fronts) ! j) \<subseteq> set_rank (i + j) ` set pop"
  proof (intro allI impI)
    fix j assume j: "j < length ((p # ps) # fronts)"
    show "set (((p # ps) # fronts) ! j) \<subseteq> set_rank (i + j) ` set pop"
    proof (cases j)
      case 0
      then show ?thesis using "2.prems"(2) by simp
    next
      case (Suc k)
      then show ?thesis using f j by simp
    qed
  qed
  ultimately show ?case by auto
qed

lemma first_sets_lookup:
  assumes "p \<in> set ps"
  shows "fmlookup (first_sets ps pop S) (cid p)
           = Some (dominated_by (last [q \<leftarrow> ps. cid q = cid p]) pop)"
proof -
  from assms have "[q \<leftarrow> ps. cid q = cid p] \<noteq> []"
    by (auto simp: filter_empty_conv)
  then show ?thesis
    unfolding first_sets_def fold_fmupd_lookup by (simp split: list.splits)
qed

lemma first_counters_lookup:
  assumes "p \<in> set ps"
  shows "fmlookup (first_counters ps pop n) (cid p)
           = Some (dominator_count (last [q \<leftarrow> ps. cid q = cid p]) pop)"
proof -
  from assms have "[q \<leftarrow> ps. cid q = cid p] \<noteq> []"
    by (auto simp: filter_empty_conv)
  then show ?thesis
    unfolding first_counters_def fold_fmupd_lookup by (simp split: list.splits)
qed

lemma first_pass_closed_sets:
  "closed_sets pop (first_sets pop pop fmempty) (first_counters pop pop fmempty)"
proof -
  have "set (dominated_by x pop) \<subseteq> set pop" for x :: "'a candidate"
    by (auto simp: dominated_by_def)
  moreover have "fmdom' (first_counters pop pop fmempty) = cid ` set pop"
    by (simp add: first_counters_def fold_fmupd_dom)
  ultimately show ?thesis
    unfolding closed_sets_def by (simp add: first_sets_lookup)
qed

lemma first_front_ranked: "set (first_front ps pop) \<subseteq> set_rank 0 ` set ps"
  by (auto simp: first_front_def set_rank_def)

lemma sort_total:
  "\<exists>fronts. fast_nondominated_sort pop = Some fronts
     \<and> (\<forall>j < length fronts. set (fronts ! j) \<subseteq> set_rank j ` set pop)
     \<and> concat (take 1 fronts) = first_front pop pop"
proof -
  from while_fronts_total [OF first_pass_closed_sets first_front_ranked, of pop "[]"]
  show ?thesis
    by (simp add: fast_nondominated_sort_def first_pass_closed)
qed

subsection \<open>Front 0\<close>

lemma first_front_incomparable:
  assumes a: "a \<in> set (first_front pop pop)" and b: "b \<in> set (first_front pop pop)"
    and ne: "cid a \<noteq> cid b"
  shows "\<not> dominates (objectives a) (objectives b)"
proof
  assume d: "dominates (objectives a) (objectives b)"
  from a obtain p where p: "p \<in> set pop" "a = p\<lparr>rank := Some 0\<rparr>"
    by (auto simp: first_front_def)
  from b obtain q where q: "q \<in> set pop" "b = q\<lparr>rank := Some 0\<rparr>"
    and z: "dominator_count q pop = 0"
    by (auto simp: first_front_def)
  have "dominates (objectives p) (objectives q)" using d p q by simp
  moreover from this have "\<not> dominates (objectives q) (objectives p)"
    by (rule dominates_asym)
  moreover have "cid p \<noteq> cid q" using ne p q by simp
  ultimately have "p \<in> set [x \<leftarrow> pop. cid x \<noteq> cid q \<and> \<not> dominates (objectives q) (objectives x)
                                    \<and> dominates (objectives x) (objectives q)]"
    using p(1) by simp
  then have "dominator_count q pop \<noteq> 0"
    unfolding dominator_count_def by (auto simp: filter_empty_conv)
  with z show False by simp
qed

text \<open>
  C5, as amended. Whatever the population, two candidates of front 0 that carry different
  ids do not dominate each other. Candidates that share an id are never compared, and the
  claim as written fails for them.
\<close>

theorem front0_incomparable:
  assumes "fast_nondominated_sort pop = Some (front0 # rest)"
    and "a \<in> set front0" and "b \<in> set front0" and "cid a \<noteq> cid b"
  shows "\<not> dominates (objectives a) (objectives b)"
proof -
  from sort_total [of pop] assms(1) have "front0 = first_front pop pop" by auto
  with assms(2-4) show ?thesis by (simp add: first_front_incomparable)
qed

theorem front0_incomparable_witness:
  "fast_nondominated_sort
     [candidate_of ''Y'' 4 4 60, candidate_of ''W'' 3 8 55,
      candidate_of ''X'' 5 5 50, candidate_of ''Z'' 10 10 10]
     = Some ([(candidate_of ''Y'' 4 4 60)\<lparr>rank := Some 0\<rparr>,
              (candidate_of ''W'' 3 8 55)\<lparr>rank := Some 0\<rparr>]
             # [[(candidate_of ''X'' 5 5 50)\<lparr>rank := Some 1\<rparr>],
                [(candidate_of ''Z'' 10 10 10)\<lparr>rank := Some 2\<rparr>]])
   \<and> cid ((candidate_of ''Y'' 4 4 60)\<lparr>rank := Some 0\<rparr>)
       \<noteq> cid ((candidate_of ''W'' 3 8 55)\<lparr>rank := Some 0\<rparr>)
   \<and> \<not> dominates (objectives ((candidate_of ''Y'' 4 4 60)\<lparr>rank := Some 0\<rparr>))
                   (objectives ((candidate_of ''W'' 3 8 55)\<lparr>rank := Some 0\<rparr>))"
proof -
  let ?Y = "(candidate_of ''Y'' 4 4 60)\<lparr>rank := Some 0\<rparr>"
  let ?W = "(candidate_of ''W'' 3 8 55)\<lparr>rank := Some 0\<rparr>"
  have h1: "fast_nondominated_sort
     [candidate_of ''Y'' 4 4 60, candidate_of ''W'' 3 8 55,
      candidate_of ''X'' 5 5 50, candidate_of ''Z'' 10 10 10]
     = Some ([?Y, ?W]
             # [[(candidate_of ''X'' 5 5 50)\<lparr>rank := Some 1\<rparr>],
                [(candidate_of ''Z'' 10 10 10)\<lparr>rank := Some 2\<rparr>]])"
    by (simp add: fast_nondominated_sort_def candidate_of_def dominates_def fge_def fgt_def)
  have h2: "?Y \<in> set [?Y, ?W]" by simp
  have h3: "?W \<in> set [?Y, ?W]" by simp
  have h4: "cid ?Y \<noteq> cid ?W" by (simp add: candidate_of_def)
  have c: "\<not> dominates (objectives ?Y) (objectives ?W)"
    by (rule front0_incomparable [OF h1 h2 h3 h4])
  show ?thesis by (intro conjI h1 h4 c)
qed

text \<open>
  C5 as written fails: two distinct candidates that share the id A are both placed in
  front 0 although the first dominates the second.
\<close>

theorem front0_same_id_dominated:
  "fast_nondominated_sort [candidate_of ''A'' 1 1 9, candidate_of ''A'' 2 2 8]
     = Some [[(candidate_of ''A'' 1 1 9)\<lparr>rank := Some 0\<rparr>,
              (candidate_of ''A'' 2 2 8)\<lparr>rank := Some 0\<rparr>]]
   \<and> (candidate_of ''A'' 1 1 9)\<lparr>rank := Some 0\<rparr> \<noteq> (candidate_of ''A'' 2 2 8)\<lparr>rank := Some 0\<rparr>
   \<and> dominates (objectives ((candidate_of ''A'' 1 1 9)\<lparr>rank := Some 0\<rparr>))
                 (objectives ((candidate_of ''A'' 2 2 8)\<lparr>rank := Some 0\<rparr>))"
  by (simp add: fast_nondominated_sort_def candidate_of_def dominates_def fge_def fgt_def)

subsection \<open>Candidates that share an id\<close>

lemma first_front_member:
  "p \<in> set pop \<Longrightarrow> dominator_count p pop = 0 \<Longrightarrow> p\<lparr>rank := Some 0\<rparr> \<in> set (first_front pop pop)"
  by (auto simp: first_front_def)

lemma dominator_count_zero:
  "(\<forall>x \<in> set pop. cid x \<noteq> cid p \<longrightarrow> \<not> dominates (objectives x) (objectives p))
     \<Longrightarrow> dominator_count p pop = 0"
  by (auto simp: dominator_count_def filter_empty_conv)

text \<open>
  C10. For two candidates of a population that carry the same id: the loop body skips the
  pair as it skips a self-comparison (the dictionaries are returned unchanged, no dominance
  test is made); after the first pass the two share one entry of \<open>S\<close> and one of \<open>n\<close>, which
  hold what was computed for the last candidate with that id; and a candidate that no
  candidate with a different id dominates is placed in front 0, whether or not a candidate
  with its own id dominates it.
\<close>

theorem same_id_never_compared:
  fixes pop :: "'i candidate list"
  assumes p: "p \<in> set pop" and q: "q \<in> set pop" and same: "cid p = cid q"
  shows "compare_step p q (S, n) = Some (S, n)
     \<and> (\<exists>S' n' front0.
           first_pass pop pop (fmempty, fmempty, []) = Some (S', n', front0)
           \<and> fmlookup S' (cid p) = Some (dominated_by (last [x \<leftarrow> pop. cid x = cid p]) pop)
           \<and> fmlookup S' (cid q) = Some (dominated_by (last [x \<leftarrow> pop. cid x = cid p]) pop)
           \<and> fmlookup n' (cid p) = Some (dominator_count (last [x \<leftarrow> pop. cid x = cid p]) pop)
           \<and> fmlookup n' (cid q) = Some (dominator_count (last [x \<leftarrow> pop. cid x = cid p]) pop))
     \<and> ((\<forall>x \<in> set pop. cid x \<noteq> cid p \<longrightarrow> \<not> dominates (objectives x) (objectives p))
          \<longrightarrow> (\<exists>front0 rest. fast_nondominated_sort pop = Some (front0 # rest)
                               \<and> p\<lparr>rank := Some 0\<rparr> \<in> set front0))"
proof (intro conjI impI)
  show "compare_step p q (S, n) = Some (S, n)"
    using same by simp
next
  show "\<exists>S' n' front0.
           first_pass pop pop (fmempty, fmempty, []) = Some (S', n', front0)
           \<and> fmlookup S' (cid p) = Some (dominated_by (last [x \<leftarrow> pop. cid x = cid p]) pop)
           \<and> fmlookup S' (cid q) = Some (dominated_by (last [x \<leftarrow> pop. cid x = cid p]) pop)
           \<and> fmlookup n' (cid p) = Some (dominator_count (last [x \<leftarrow> pop. cid x = cid p]) pop)
           \<and> fmlookup n' (cid q) = Some (dominator_count (last [x \<leftarrow> pop. cid x = cid p]) pop)"
    using first_sets_lookup [OF p, of pop fmempty] first_counters_lookup [OF p, of pop fmempty] same
    by (simp add: first_pass_closed)
next
  assume "\<forall>x \<in> set pop. cid x \<noteq> cid p \<longrightarrow> \<not> dominates (objectives x) (objectives p)"
  then have "dominator_count p pop = 0" by (rule dominator_count_zero)
  with p have m: "p\<lparr>rank := Some 0\<rparr> \<in> set (first_front pop pop)"
    by (rule first_front_member)
  from sort_total [of pop] obtain fronts where
    f: "fast_nondominated_sort pop = Some fronts" "concat (take 1 fronts) = first_front pop pop"
    by blast
  from m f(2) obtain front0 rest where "fronts = front0 # rest"
    by (cases fronts) auto
  with m f show "\<exists>front0 rest. fast_nondominated_sort pop = Some (front0 # rest)
                               \<and> p\<lparr>rank := Some 0\<rparr> \<in> set front0"
    by auto
qed


theorem same_id_never_compared_witness:
  "candidate_of ''M'' 2 2 8 \<in> set [candidate_of ''M'' 1 1 9, candidate_of ''M'' 2 2 8, candidate_of ''K'' 3 3 7]
   \<and> candidate_of ''M'' 1 1 9 \<in> set [candidate_of ''M'' 1 1 9, candidate_of ''M'' 2 2 8, candidate_of ''K'' 3 3 7]
   \<and> cid (candidate_of ''M'' 2 2 8) = cid (candidate_of ''M'' 1 1 9)
   \<and> dominates (objectives (candidate_of ''M'' 1 1 9)) (objectives (candidate_of ''M'' 2 2 8))
   \<and> (\<exists>front0 rest.
         fast_nondominated_sort
           [candidate_of ''M'' 1 1 9, candidate_of ''M'' 2 2 8, candidate_of ''K'' 3 3 7]
           = Some (front0 # rest)
         \<and> (candidate_of ''M'' 2 2 8)\<lparr>rank := Some 0\<rparr> \<in> set front0)"
proof -
  let ?pop = "[candidate_of ''M'' 1 1 9, candidate_of ''M'' 2 2 8, candidate_of ''K'' 3 3 7]"
  have hp: "candidate_of ''M'' 2 2 8 \<in> set ?pop" by simp
  have hq: "candidate_of ''M'' 1 1 9 \<in> set ?pop" by simp
  have hs: "cid (candidate_of ''M'' 2 2 8) = cid (candidate_of ''M'' 1 1 9)"
    by (simp add: candidate_of_def)
  have hd: "dominates (objectives (candidate_of ''M'' 1 1 9)) (objectives (candidate_of ''M'' 2 2 8))"
    by (simp add: candidate_of_def dominates_def fge_def fgt_def)
  have others: "\<forall>x \<in> set ?pop. cid x \<noteq> cid (candidate_of ''M'' 2 2 8)
                  \<longrightarrow> \<not> dominates (objectives x) (objectives (candidate_of ''M'' 2 2 8))"
    by (simp add: candidate_of_def dominates_def fge_def fgt_def)
  from same_id_never_compared [OF hp hq hs, of fmempty fmempty] others
  have c: "\<exists>front0 rest. fast_nondominated_sort ?pop = Some (front0 # rest)
             \<and> (candidate_of ''M'' 2 2 8)\<lparr>rank := Some 0\<rparr> \<in> set front0"
    by blast
  show ?thesis by (intro conjI hp hq hs hd c)
qed

subsection \<open>Pairwise distinct ids: the fronts partition the population\<close>

text \<open>
  The invariant of the second pass. \<open>P\<close> is the set of ids of the fronts already swept;
  the counter of a candidate is the number of its dominators outside \<open>P\<close>, and the front
  being swept holds the candidates outside \<open>P\<close> whose dominators are all in \<open>P\<close>.
\<close>

definition open_dominators :: "'i candidate list \<Rightarrow> 'i set \<Rightarrow> 'i candidate \<Rightarrow> 'i candidate set" where
  "open_dominators pop P q =
     {p \<in> set pop. dominates (objectives p) (objectives q) \<and> cid p \<notin> P}"

definition counts_open :: "'i candidate list \<Rightarrow> 'i set \<Rightarrow> 'i counters \<Rightarrow> bool" where
  "counts_open pop P n \<longleftrightarrow>
     (\<forall>q \<in> set pop. fmlookup n (cid q) = Some (int (card (open_dominators pop P q))))"

definition sets_exact :: "'i candidate list \<Rightarrow> 'i dominated_sets \<Rightarrow> bool" where
  "sets_exact pop S \<longleftrightarrow> (\<forall>p \<in> set pop. fmlookup S (cid p) = Some (dominated_by p pop))"

lemma finite_open_dominators [simp]: "finite (open_dominators pop P q)"
  by (simp add: open_dominators_def)

lemma open_dominators_mono: "P \<subseteq> P' \<Longrightarrow> open_dominators pop P' q \<subseteq> open_dominators pop P q"
  by (auto simp: open_dominators_def)

lemma same_id_same_candidate:
  "distinct (map cid pop) \<Longrightarrow> x \<in> set pop \<Longrightarrow> y \<in> set pop \<Longrightarrow> cid x = cid y \<Longrightarrow> x = y"
  by (meson distinct_map inj_onD)

lemma release_distinct:
  assumes "distinct (map cid qs)" and "cid ` set qs \<subseteq> fmdom' n"
  shows "\<exists>n'. release i qs (n, nf)
                 = Some (n', nf @ map (set_rank (i + 1)) [q \<leftarrow> qs. fmlookup n (cid q) = Some 1])
           \<and> (\<forall>k. fmlookup n' k = (if k \<in> cid ` set qs then map_option (\<lambda>c. c - 1) (fmlookup n k)
                                    else fmlookup n k))"
  using assms
proof (induction qs arbitrary: n nf)
  case Nil
  then show ?case by simp
next
  case (Cons q qs)
  from Cons.prems obtain c where c: "fmlookup n (cid q) = Some c"
    by (auto simp: fmlookup_dom'_iff)
  let ?n1 = "fmupd (cid q) (c - 1) n"
  let ?nf1 = "if c - 1 = 0 then nf @ [q\<lparr>rank := Some (i + 1)\<rparr>] else nf"
  have fresh: "cid q \<notin> cid ` set qs" using Cons.prems(1) by auto
  have d: "distinct (map cid qs)" using Cons.prems(1) by simp
  have "cid ` set qs \<subseteq> fmdom' ?n1" using Cons.prems(2) by auto
  from Cons.IH [OF d this, of ?nf1] obtain n' where
    r: "release i qs (?n1, ?nf1)
          = Some (n', ?nf1 @ map (set_rank (i + 1)) [x \<leftarrow> qs. fmlookup ?n1 (cid x) = Some 1])"
    and l: "\<forall>k. fmlookup n' k = (if k \<in> cid ` set qs then map_option (\<lambda>c. c - 1) (fmlookup ?n1 k)
                                   else fmlookup ?n1 k)"
    by blast
  have same: "[x \<leftarrow> qs. fmlookup ?n1 (cid x) = Some 1] = [x \<leftarrow> qs. fmlookup n (cid x) = Some 1]"
    using fresh by (intro filter_cong) auto
  have "release i (q # qs) (n, nf)
          = Some (n', nf @ map (set_rank (i + 1)) [x \<leftarrow> q # qs. fmlookup n (cid x) = Some 1])"
    using c r same by (auto simp: set_rank_def)
  moreover have "\<forall>k. fmlookup n' k
                   = (if k \<in> cid ` set (q # qs) then map_option (\<lambda>c. c - 1) (fmlookup n k)
                      else fmlookup n k)"
    using l c fresh by auto
  ultimately show ?case by blast
qed

lemma dominated_by_iff:
  assumes "distinct (map cid pop)" and "p \<in> set pop" and "q \<in> set pop"
  shows "q \<in> set (dominated_by p pop) \<longleftrightarrow> dominates (objectives p) (objectives q)"
proof -
  have "cid q \<noteq> cid p" if "dominates (objectives p) (objectives q)"
  proof
    assume "cid q = cid p"
    with assms have "q = p" by (auto dest: same_id_same_candidate)
    with that show False by (simp add: dominates_irrefl)
  qed
  then show ?thesis using assms(3) by (auto simp: dominated_by_def)
qed

lemma open_dominators_insert:
  assumes "distinct (map cid pop)" and "p \<in> set pop"
  shows "open_dominators pop (insert (cid p) P) q = open_dominators pop P q - {p}"
  using assms by (auto simp: open_dominators_def dest: same_id_same_candidate)

lemma distinct_dominated_by: "distinct (map cid pop) \<Longrightarrow> distinct (map cid (dominated_by p pop))"
  by (simp add: dominated_by_def distinct_map_filter)

lemma release_open:
  assumes dist: "distinct (map cid pop)" and cnt: "counts_open pop P n"
    and p: "p \<in> set pop" and fresh: "cid p \<notin> P"
  shows "\<exists>n'. release i (dominated_by p pop) (n, nf)
                 = Some (n', nf @ map (set_rank (i + 1)) [q \<leftarrow> pop. open_dominators pop P q = {p}])
           \<and> counts_open pop (insert (cid p) P) n'"
proof -
  have sub: "set (dominated_by p pop) \<subseteq> set pop" by (auto simp: dominated_by_def)
  have dom: "cid ` set (dominated_by p pop) \<subseteq> fmdom' n"
    using sub cnt by (auto simp: counts_open_def intro: fmdom'I)
  from release_distinct [OF distinct_dominated_by [OF dist] dom, of i nf] obtain n' where
    r: "release i (dominated_by p pop) (n, nf)
          = Some (n', nf @ map (set_rank (i + 1))
                            [q \<leftarrow> dominated_by p pop. fmlookup n (cid q) = Some 1])"
    and l: "\<forall>k. fmlookup n' k
              = (if k \<in> cid ` set (dominated_by p pop) then map_option (\<lambda>c. c - 1) (fmlookup n k)
                 else fmlookup n k)"
    by blast
  have mem: "p \<in> open_dominators pop P q \<longleftrightarrow> dominates (objectives p) (objectives q)" for q
    using p fresh by (simp add: open_dominators_def)
  have single: "(dominates (objectives p) (objectives q) \<and> card (open_dominators pop P q) = 1)
                  \<longleftrightarrow> open_dominators pop P q = {p}" for q
  proof
    assume a: "dominates (objectives p) (objectives q) \<and> card (open_dominators pop P q) = 1"
    then obtain x where x: "open_dominators pop P q = {x}" by (auto simp: card_1_singleton_iff)
    moreover from a mem have "p \<in> open_dominators pop P q" by simp
    ultimately show "open_dominators pop P q = {p}" by simp
  next
    assume a: "open_dominators pop P q = {p}"
    then have "p \<in> open_dominators pop P q" by simp
    then have "dominates (objectives p) (objectives q)" by (simp only: mem)
    moreover from a have "card (open_dominators pop P q) = 1" by simp
    ultimately show "dominates (objectives p) (objectives q) \<and> card (open_dominators pop P q) = 1"
      by simp
  qed
  have filt: "[q \<leftarrow> dominated_by p pop. fmlookup n (cid q) = Some 1]
                = [q \<leftarrow> pop. open_dominators pop P q = {p}]"
  proof -
    have "[q \<leftarrow> dominated_by p pop. fmlookup n (cid q) = Some 1]
            = [q \<leftarrow> pop. (cid q \<noteq> cid p \<and> dominates (objectives p) (objectives q))
                           \<and> fmlookup n (cid q) = Some 1]"
      by (simp add: dominated_by_def conj_commute)
    also have "\<dots> = [q \<leftarrow> pop. open_dominators pop P q = {p}]"
    proof (rule filter_cong [OF refl])
      fix q assume q: "q \<in> set pop"
      have "fmlookup n (cid q) = Some (int (card (open_dominators pop P q)))"
        using cnt q by (simp add: counts_open_def)
      moreover have "(cid q \<noteq> cid p \<and> dominates (objectives p) (objectives q))
                       \<longleftrightarrow> dominates (objectives p) (objectives q)"
        using dominated_by_iff [OF dist p q] q by (auto simp: dominated_by_def)
      ultimately show "((cid q \<noteq> cid p \<and> dominates (objectives p) (objectives q))
                          \<and> fmlookup n (cid q) = Some 1)
                        \<longleftrightarrow> open_dominators pop P q = {p}"
        using single [of q] by auto
    qed
    finally show ?thesis .
  qed
  have "counts_open pop (insert (cid p) P) n'"
    unfolding counts_open_def
  proof
    fix q assume q: "q \<in> set pop"
    have old: "fmlookup n (cid q) = Some (int (card (open_dominators pop P q)))"
      using cnt q by (simp add: counts_open_def)
    have idin: "cid q \<in> cid ` set (dominated_by p pop) \<longleftrightarrow> dominates (objectives p) (objectives q)"
    proof
      assume "cid q \<in> cid ` set (dominated_by p pop)"
      then obtain x where x: "x \<in> set (dominated_by p pop)" "cid q = cid x" by auto
      with sub have "x \<in> set pop" by auto
      with x q dist have "x = q" by (auto dest: same_id_same_candidate)
      with x(1) dominated_by_iff [OF dist p q] show "dominates (objectives p) (objectives q)"
        by simp
    next
      assume "dominates (objectives p) (objectives q)"
      with dominated_by_iff [OF dist p q] show "cid q \<in> cid ` set (dominated_by p pop)"
        by auto
    qed
    show "fmlookup n' (cid q) = Some (int (card (open_dominators pop (insert (cid p) P) q)))"
    proof (cases "dominates (objectives p) (objectives q)")
      case True
      with mem have "p \<in> open_dominators pop P q" by simp
      then have "card (open_dominators pop P q - {p}) = card (open_dominators pop P q) - 1"
        and "0 < card (open_dominators pop P q)"
        by (auto simp: card_gt_0_iff)
      then have "int (card (open_dominators pop P q - {p}))
                   = int (card (open_dominators pop P q)) - 1"
        by simp
      then show ?thesis
        using True l old idin by (simp add: open_dominators_insert [OF dist p])
    next
      case False
      with mem have "p \<notin> open_dominators pop P q" by simp
      then have "open_dominators pop P q - {p} = open_dominators pop P q" by simp
      then show ?thesis
        using False l old idin by (simp add: open_dominators_insert [OF dist p])
    qed
  qed
  with r filt show ?thesis by simp
qed

definition newly_ready :: "'i candidate list \<Rightarrow> 'i set \<Rightarrow> 'i set \<Rightarrow> 'i candidate set" where
  "newly_ready pop P P' =
     {q \<in> set pop. open_dominators pop P q \<noteq> {} \<and> open_dominators pop P' q = {}}"

lemma sweep_open:
  assumes dist: "distinct (map cid pop)" and S: "sets_exact pop S"
    and cnt: "counts_open pop P n"
    and ps: "cid ` set ps \<subseteq> cid ` set pop" "distinct (map cid ps)" "cid ` set ps \<inter> P = {}"
  shows "\<exists>n' new. sweep S i ps (n, nf) = Some (n', nf @ new)
           \<and> counts_open pop (P \<union> cid ` set ps) n'
           \<and> distinct (map cid new)
           \<and> set new = set_rank (i + 1) ` newly_ready pop P (P \<union> cid ` set ps)"
  using cnt ps
proof (induction ps arbitrary: P n nf)
  case Nil
  then show ?case by (simp add: newly_ready_def)
next
  case (Cons c ps)
  from Cons.prems(2) obtain p where p: "p \<in> set pop" "cid c = cid p" by auto
  have fresh: "cid p \<notin> P" using Cons.prems(4) p(2) by auto
  let ?P1 = "insert (cid p) P"
  let ?P2 = "P \<union> cid ` set (c # ps)"
  have P2: "?P2 = ?P1 \<union> cid ` set ps" using p(2) by auto
  have Sc: "fmlookup S (cid c) = Some (dominated_by p pop)"
    using S p by (simp add: sets_exact_def)
  from release_open [OF dist Cons.prems(1) p(1) fresh, of i nf] obtain n1 where
    r: "release i (dominated_by p pop) (n, nf)
          = Some (n1, nf @ map (set_rank (i + 1)) [q \<leftarrow> pop. open_dominators pop P q = {p}])"
    and c1: "counts_open pop ?P1 n1"
    by blast
  let ?new1 = "map (set_rank (i + 1)) [q \<leftarrow> pop. open_dominators pop P q = {p}]"
  have "cid ` set ps \<subseteq> cid ` set pop" "distinct (map cid ps)" "cid ` set ps \<inter> ?P1 = {}"
    using Cons.prems(2,3,4) p(2) by auto
  from Cons.IH [OF c1 this, of "nf @ ?new1"] obtain n' new2 where
    s: "sweep S i ps (n1, nf @ ?new1) = Some (n', (nf @ ?new1) @ new2)"
    and c2: "counts_open pop (?P1 \<union> cid ` set ps) n'"
    and d2: "distinct (map cid new2)"
    and s2: "set new2 = set_rank (i + 1) ` newly_ready pop ?P1 (?P1 \<union> cid ` set ps)"
    by blast
  have run: "sweep S i (c # ps) (n, nf) = Some (n', nf @ (?new1 @ new2))"
    using Sc r s by simp
  have o1: "open_dominators pop ?P1 q = open_dominators pop P q - {p}" for q
    by (rule open_dominators_insert [OF dist p(1)])
  have o2: "open_dominators pop ?P2 q \<subseteq> open_dominators pop ?P1 q" for q
    unfolding P2 by (rule open_dominators_mono) auto
  have split: "newly_ready pop P ?P2
                 = {q \<in> set pop. open_dominators pop P q = {p}} \<union> newly_ready pop ?P1 ?P2"
  proof (intro equalityI subsetI)
    fix q assume "q \<in> newly_ready pop P ?P2"
    then have q: "q \<in> set pop" "open_dominators pop P q \<noteq> {}" "open_dominators pop ?P2 q = {}"
      by (auto simp: newly_ready_def)
    show "q \<in> {q \<in> set pop. open_dominators pop P q = {p}} \<union> newly_ready pop ?P1 ?P2"
    proof (cases "open_dominators pop ?P1 q = {}")
      case True
      with o1 [of q] q(2) have "open_dominators pop P q = {p}" by auto
      with q(1) show ?thesis by simp
    next
      case False
      with q show ?thesis by (simp add: newly_ready_def)
    qed
  next
    fix q assume "q \<in> {q \<in> set pop. open_dominators pop P q = {p}} \<union> newly_ready pop ?P1 ?P2"
    then show "q \<in> newly_ready pop P ?P2"
    proof
      assume "q \<in> {q \<in> set pop. open_dominators pop P q = {p}}"
      then have q: "q \<in> set pop" "open_dominators pop P q = {p}" by auto
      with o1 [of q] have "open_dominators pop ?P1 q = {}" by simp
      with o2 [of q] have "open_dominators pop ?P2 q = {}" by auto
      with q show ?thesis by (simp add: newly_ready_def)
    next
      assume "q \<in> newly_ready pop ?P1 ?P2"
      then have q: "q \<in> set pop" "open_dominators pop ?P1 q \<noteq> {}" "open_dominators pop ?P2 q = {}"
        by (auto simp: newly_ready_def)
      from q(2) o1 [of q] have "open_dominators pop P q \<noteq> {}" by auto
      with q show ?thesis by (simp add: newly_ready_def)
    qed
  qed
  have s2': "set new2 = set_rank (i + 1) ` newly_ready pop ?P1 ?P2"
    using s2 by (simp only: P2)
  have set_new: "set (?new1 @ new2) = set_rank (i + 1) ` newly_ready pop P ?P2"
  proof -
    have "set (?new1 @ new2)
            = set_rank (i + 1) ` {q \<in> set pop. open_dominators pop P q = {p}}
              \<union> set_rank (i + 1) ` newly_ready pop ?P1 ?P2"
      by (simp only: set_append set_map set_filter s2')
    then show ?thesis by (simp only: split image_Un)
  qed
  have d1: "distinct (map cid ?new1)"
    using dist by (simp add: o_def distinct_map_filter)
  have disj: "set (map cid ?new1) \<inter> set (map cid new2) = {}"
  proof (rule ccontr)
    assume "set (map cid ?new1) \<inter> set (map cid new2) \<noteq> {}"
    then obtain k where k1: "k \<in> set (map cid ?new1)" and k2: "k \<in> set (map cid new2)" by auto
    from k1 obtain q where q: "q \<in> set pop" "open_dominators pop P q = {p}" "k = cid q"
      by auto
    from k2 s2 obtain q' where q': "q' \<in> newly_ready pop ?P1 (?P1 \<union> cid ` set ps)" "k = cid q'"
      by auto
    then have "q' \<in> set pop" "open_dominators pop ?P1 q' \<noteq> {}"
      by (auto simp: newly_ready_def)
    moreover from this q q' dist have "q' = q" by (auto dest: same_id_same_candidate)
    ultimately show False using o1 [of q] q(2) by simp
  qed
  have "distinct (map cid (?new1 @ new2))"
    using d1 d2 disj by simp
  moreover have "counts_open pop ?P2 n'" using c2 by (simp only: P2)
  ultimately show ?case using run set_new by blast
qed

lemma all_released:
  assumes "cid ` {q \<in> set pop. open_dominators pop P q = {}} \<subseteq> P"
  shows "cid ` set pop \<subseteq> P"
proof (rule ccontr)
  assume "\<not> cid ` set pop \<subseteq> P"
  then obtain q0 where "q0 \<in> set pop \<and> cid q0 \<notin> P" by auto
  from ex_has_least_nat [of "\<lambda>q. q \<in> set pop \<and> cid q \<notin> P" q0
         "\<lambda>q. card (open_dominators pop {} q)", OF this]
  obtain q where q: "q \<in> set pop" "cid q \<notin> P"
    and least: "\<forall>y. y \<in> set pop \<and> cid y \<notin> P
                  \<longrightarrow> card (open_dominators pop {} q) \<le> card (open_dominators pop {} y)"
    by blast
  from q assms have "open_dominators pop P q \<noteq> {}" by auto
  then obtain p where p: "p \<in> set pop" "dominates (objectives p) (objectives q)" "cid p \<notin> P"
    by (auto simp: open_dominators_def)
  have "open_dominators pop {} p \<subset> open_dominators pop {} q"
  proof
    show "open_dominators pop {} p \<subseteq> open_dominators pop {} q"
      using p(2) by (auto simp: open_dominators_def intro: dominates_trans)
    have "p \<in> open_dominators pop {} q" using p by (simp add: open_dominators_def)
    moreover have "p \<notin> open_dominators pop {} p"
      by (simp add: open_dominators_def dominates_irrefl)
    ultimately show "open_dominators pop {} p \<noteq> open_dominators pop {} q" by auto
  qed
  then have "card (open_dominators pop {} p) < card (open_dominators pop {} q)"
    by (intro psubset_card_mono) simp_all
  with least p show False by force
qed

definition ready :: "'i candidate list \<Rightarrow> 'i set \<Rightarrow> 'i set" where
  "ready pop P = cid ` {q \<in> set pop. open_dominators pop P q = {}}"

lemma while_fronts_exact:
  assumes dist: "distinct (map cid pop)" and S: "sets_exact pop S"
    and cnt: "counts_open pop P n"
    and front: "set front \<subseteq> set_rank i ` set pop" "distinct (map cid front)"
    and inv: "ready pop P = P \<union> cid ` set front" "P \<inter> cid ` set front = {}"
  shows "\<exists>fronts. while_fronts S n i earlier front = Some (earlier @ fronts)
           \<and> distinct (map cid (concat fronts))
           \<and> cid ` set (concat fronts) = cid ` set pop - P"
  using S cnt front inv
proof (induction S n i earlier front arbitrary: P rule: while_fronts.induct)
  case (1 S n i earlier)
  from "1.prems"(5) have "cid ` {q \<in> set pop. open_dominators pop P q = {}} \<subseteq> P"
    by (simp add: ready_def)
  then have "cid ` set pop \<subseteq> P" by (rule all_released)
  then show ?case by simp
next
  case (2 S n i earlier p ps)
  let ?front = "p # ps"
  let ?P' = "P \<union> cid ` set ?front"
  have ids: "cid ` set ?front \<subseteq> cid ` set pop"
    using "2.prems"(3) by force
  have disj: "cid ` set ?front \<inter> P = {}" using "2.prems"(6) by auto
  from sweep_open [OF dist "2.prems"(1) "2.prems"(2) ids "2.prems"(4) disj, of i "[]"]
  obtain n' new where
    s0: "sweep S i ?front (n, []) = Some (n', [] @ new)"
    and c': "counts_open pop ?P' n'"
    and dn: "distinct (map cid new)"
    and sn: "set new = set_rank (i + 1) ` newly_ready pop P ?P'"
    by blast
  have s: "sweep S i ?front (n, []) = Some (n', new)"
    using s0 by (simp only: append_Nil)
  have sub: "set new \<subseteq> set_rank (i + 1) ` set pop"
    unfolding sn by (auto simp: newly_ready_def)
  have idn: "cid ` set new = cid ` newly_ready pop P ?P'"
    unfolding sn by (simp add: image_image)
  have mono: "open_dominators pop ?P' q \<subseteq> open_dominators pop P q" for q
    by (rule open_dominators_mono) auto
  have "{q \<in> set pop. open_dominators pop ?P' q = {}}
          = {q \<in> set pop. open_dominators pop P q = {}} \<union> newly_ready pop P ?P'"
    using mono by (auto simp: newly_ready_def)
  then have r': "ready pop ?P' = ?P' \<union> cid ` set new"
    unfolding ready_def idn using "2.prems"(5) by (simp add: image_Un ready_def)
  have d': "?P' \<inter> cid ` set new = {}"
  proof (rule ccontr)
    assume "?P' \<inter> cid ` set new \<noteq> {}"
    then obtain k where k: "k \<in> ?P'" "k \<in> cid ` set new" by auto
    from k(2) idn obtain q where q: "q \<in> set pop" "open_dominators pop P q \<noteq> {}" "k = cid q"
      by (auto simp: newly_ready_def)
    from k(1) "2.prems"(5) have "k \<in> ready pop P" by simp
    then obtain q' where q': "q' \<in> set pop" "open_dominators pop P q' = {}" "k = cid q'"
      by (auto simp: ready_def)
    from q q' dist have "q = q'" by (auto dest: same_id_same_candidate)
    with q(2) q'(2) show False by simp
  qed
  from "2.IH" [OF s refl "2.prems"(1) c' sub dn r' d'] obtain fronts where
    w: "while_fronts S n' (i + 1) (earlier @ [?front]) new = Some ((earlier @ [?front]) @ fronts)"
    and df: "distinct (map cid (concat fronts))"
    and sf: "cid ` set (concat fronts) = cid ` set pop - ?P'"
    by blast
  have run: "while_fronts S n i earlier ?front = Some (earlier @ (?front # fronts))"
    using s w by simp
  have "cid ` set ?front \<inter> cid ` set (concat fronts) = {}"
    unfolding sf by blast
  then have "set (map cid ?front) \<inter> set (map cid (concat fronts)) = {}"
    by (simp only: set_map)
  then have dall: "distinct (map cid (concat (?front # fronts)))"
    using "2.prems"(4) df by (simp del: set_map set_concat)
  have "cid ` set (concat (?front # fronts)) = cid ` set ?front \<union> (cid ` set pop - ?P')"
    using sf by (simp add: image_Un)
  also have "\<dots> = cid ` set pop - P"
    using ids disj by auto
  finally show ?case using run dall by blast
qed

lemma filter_same_id:
  "distinct (map cid pop) \<Longrightarrow> p \<in> set pop \<Longrightarrow> [q \<leftarrow> pop. cid q = cid p] = [p]"
proof (induction pop)
  case Nil
  then show ?case by simp
next
  case (Cons a pop)
  show ?case
  proof (cases "p = a")
    case True
    have "\<forall>q \<in> set pop. cid q \<noteq> cid a" using Cons.prems(1) by (auto simp: image_iff)
    then have "[q \<leftarrow> pop. cid q = cid a] = []" by (simp add: filter_empty_conv)
    with True show ?thesis by simp
  next
    case False
    with Cons.prems have p: "p \<in> set pop" by simp
    with Cons.prems(1) have "cid a \<noteq> cid p" by (auto simp: image_iff)
    with Cons.IH p Cons.prems(1) show ?thesis by simp
  qed
qed

lemma dominator_count_open:
  assumes "distinct (map cid pop)" and "p \<in> set pop"
  shows "dominator_count p pop = int (card (open_dominators pop {} p))"
proof -
  have "[x \<leftarrow> pop. cid x \<noteq> cid p \<and> \<not> dominates (objectives p) (objectives x)
                      \<and> dominates (objectives x) (objectives p)]
          = [x \<leftarrow> pop. dominates (objectives x) (objectives p)]"
  proof (rule filter_cong [OF refl])
    fix x assume x: "x \<in> set pop"
    have "cid x \<noteq> cid p \<and> \<not> dominates (objectives p) (objectives x)"
      if d: "dominates (objectives x) (objectives p)"
    proof
      show "cid x \<noteq> cid p"
      proof
        assume "cid x = cid p"
        with assms x have "x = p" by (auto dest: same_id_same_candidate)
        with d show False by (simp add: dominates_irrefl)
      qed
      from d show "\<not> dominates (objectives p) (objectives x)" by (rule dominates_asym)
    qed
    then show "(cid x \<noteq> cid p \<and> \<not> dominates (objectives p) (objectives x)
                  \<and> dominates (objectives x) (objectives p))
               \<longleftrightarrow> dominates (objectives x) (objectives p)"
      by blast
  qed
  moreover have "distinct pop" using assms(1) by (simp add: distinct_map)
  moreover have "{x. dominates (objectives x) (objectives p)} \<inter> set pop = open_dominators pop {} p"
    by (auto simp: open_dominators_def)
  ultimately show ?thesis
    by (simp add: dominator_count_def distinct_length_filter)
qed

lemma first_pass_exact:
  assumes "distinct (map cid pop)"
  shows "sets_exact pop (first_sets pop pop fmempty)"
    and "counts_open pop {} (first_counters pop pop fmempty)"
    and "distinct (map cid (first_front pop pop))"
    and "ready pop {} = cid ` set (first_front pop pop)"
proof -
  show "sets_exact pop (first_sets pop pop fmempty)"
    unfolding sets_exact_def
    by (simp add: first_sets_lookup filter_same_id [OF assms])
  show "counts_open pop {} (first_counters pop pop fmempty)"
    unfolding counts_open_def
    by (simp add: first_counters_lookup filter_same_id [OF assms] dominator_count_open [OF assms])
  show "distinct (map cid (first_front pop pop))"
    using assms by (simp add: first_front_def o_def distinct_map_filter)
  have "{q \<in> set pop. open_dominators pop {} q = {}} = {q \<in> set pop. dominator_count q pop = 0}"
    using dominator_count_open [OF assms] by auto
  then show "ready pop {} = cid ` set (first_front pop pop)"
    by (simp add: ready_def first_front_def image_image)
qed

text \<open>
  C1, as amended. When the ids of the population are pairwise distinct, the sort returns
  (no key is missing), the ids of the concatenated fronts are exactly the ids of the
  population, each of them once, and every member of front \<open>j\<close> is a candidate of the
  population with the rank \<open>j\<close> written into it: every candidate is in exactly one front and
  has exactly one rank, a natural number.
\<close>

theorem rank_partition:
  assumes "distinct (map cid pop)"
  shows "\<exists>fronts. fast_nondominated_sort pop = Some fronts
           \<and> mset (map cid (concat fronts)) = mset (map cid pop)
           \<and> (\<forall>j < length fronts. \<forall>c \<in> set (fronts ! j).
                  rank c = Some j \<and> (\<exists>p \<in> set pop. c = p\<lparr>rank := Some j\<rparr>))"
proof -
  from sort_total [of pop] obtain fronts where
    f: "fast_nondominated_sort pop = Some fronts"
    and r: "\<forall>j < length fronts. set (fronts ! j) \<subseteq> set_rank j ` set pop"
    by blast
  have init: "P \<inter> cid ` set (first_front pop pop) = {}"
             "ready pop P = P \<union> cid ` set (first_front pop pop)" if "P = {}" for P :: "'a set"
    using that first_pass_exact(4) [OF assms] by simp_all
  from while_fronts_exact [OF assms first_pass_exact(1,2) [OF assms] first_front_ranked
         first_pass_exact(3) [OF assms] init(2) init(1), of "[]"]
  obtain fronts' where
    w: "while_fronts (first_sets pop pop fmempty) (first_counters pop pop fmempty) 0 []
          (first_front pop pop) = Some ([] @ fronts')"
    and d: "distinct (map cid (concat fronts'))"
    and s: "cid ` set (concat fronts') = cid ` set pop - {}"
    by blast
  from w f have "fronts' = fronts"
    by (simp add: fast_nondominated_sort_def first_pass_closed)
  with d s have d': "distinct (map cid (concat fronts))"
    and s': "set (map cid (concat fronts)) = set (map cid pop)"
    by simp_all
  from d' assms s' have "mset (map cid (concat fronts)) = mset (map cid pop)"
    by (simp only: set_eq_iff_mset_eq_distinct)
  moreover have "\<forall>j < length fronts. \<forall>c \<in> set (fronts ! j).
                   rank c = Some j \<and> (\<exists>p \<in> set pop. c = p\<lparr>rank := Some j\<rparr>)"
  proof (intro allI impI ballI)
    fix j c assume "j < length fronts" and "c \<in> set (fronts ! j)"
    with r have "c \<in> set_rank j ` set pop" by blast
    then obtain p where "p \<in> set pop" "c = p\<lparr>rank := Some j\<rparr>"
      by (auto simp: set_rank_def)
    then show "rank c = Some j \<and> (\<exists>p \<in> set pop. c = p\<lparr>rank := Some j\<rparr>)"
      by auto
  qed
  ultimately show ?thesis using f by blast
qed


theorem rank_partition_witness:
  "distinct (map cid [candidate_of ''Y'' 4 4 60, candidate_of ''W'' 3 8 55,
                      candidate_of ''X'' 5 5 50, candidate_of ''Z'' 10 10 10])
   \<and> (\<exists>fronts.
         fast_nondominated_sort
           [candidate_of ''Y'' 4 4 60, candidate_of ''W'' 3 8 55,
            candidate_of ''X'' 5 5 50, candidate_of ''Z'' 10 10 10] = Some fronts
         \<and> mset (map cid (concat fronts))
             = mset (map cid [candidate_of ''Y'' 4 4 60, candidate_of ''W'' 3 8 55,
                              candidate_of ''X'' 5 5 50, candidate_of ''Z'' 10 10 10])
         \<and> (\<forall>j < length fronts. \<forall>c \<in> set (fronts ! j).
                rank c = Some j
                \<and> (\<exists>p \<in> set [candidate_of ''Y'' 4 4 60, candidate_of ''W'' 3 8 55,
                               candidate_of ''X'' 5 5 50, candidate_of ''Z'' 10 10 10].
                       c = p\<lparr>rank := Some j\<rparr>)))"
proof -
  have h: "distinct (map cid [candidate_of ''Y'' 4 4 60, candidate_of ''W'' 3 8 55,
                              candidate_of ''X'' 5 5 50, candidate_of ''Z'' 10 10 10])"
    by (simp add: candidate_of_def)
  show ?thesis by (intro conjI h rank_partition [OF h])
qed

text \<open>
  C1 as written fails on a population with a repeated id: A and B share the id A, A
  dominates C and B does not. The entry \<open>S[A]\<close> written for A is overwritten by the empty
  list of B, the counter of C is never decremented, and C is in no front.
\<close>

theorem repeated_id_omits_candidate:
  "fast_nondominated_sort [candidate_of ''A'' 1 1 9, candidate_of ''A'' 3 1 7, candidate_of ''C'' 2 2 8]
     = Some [[(candidate_of ''A'' 1 1 9)\<lparr>rank := Some 0\<rparr>,
              (candidate_of ''A'' 3 1 7)\<lparr>rank := Some 0\<rparr>]]
   \<and> cid (candidate_of ''C'' 2 2 8)
       \<notin> cid ` set (concat [[(candidate_of ''A'' 1 1 9)\<lparr>rank := Some 0\<rparr>,
                                (candidate_of ''A'' 3 1 7)\<lparr>rank := Some 0\<rparr>]])"
  by (simp add: fast_nondominated_sort_def candidate_of_def dominates_def fge_def fgt_def)

subsection \<open>Origin and generation\<close>

text \<open>Erasing the two metadata fields that the ranking is claimed not to read.\<close>

definition strip_meta :: "'i candidate \<Rightarrow> 'i candidate" where
  "strip_meta c = c\<lparr>generation := None, origin := []\<rparr>"

lemma strip_meta_fields [simp]:
  "cid (strip_meta c) = cid c"
  "objectives (strip_meta c) = objectives c"
  "rank (strip_meta c) = rank c"
  "strip_meta (c\<lparr>rank := r\<rparr>) = (strip_meta c)\<lparr>rank := r\<rparr>"
  by (simp_all add: strip_meta_def)

lemma dominated_by_strip:
  "dominated_by (strip_meta p) (map strip_meta pop) = map strip_meta (dominated_by p pop)"
  by (simp add: dominated_by_def filter_map o_def)

lemma dominator_count_strip:
  "dominator_count (strip_meta p) (map strip_meta pop) = dominator_count p pop"
  by (simp add: dominator_count_def filter_map o_def)

lemma first_sets_strip:
  "first_sets (map strip_meta ps) (map strip_meta pop) (fmmap (map strip_meta) S)
     = fmmap (map strip_meta) (first_sets ps pop S)"
proof (induction ps arbitrary: S)
  case Nil
  show ?case by (simp add: first_sets_def)
next
  case (Cons a ps)
  have "first_sets (map strip_meta (a # ps)) (map strip_meta pop) (fmmap (map strip_meta) S)
          = first_sets (map strip_meta ps) (map strip_meta pop)
              (fmmap (map strip_meta) (fmupd (cid a) (dominated_by a pop) S))"
    by (simp add: first_sets_def dominated_by_strip fmmap_fmupd)
  also have "\<dots> = fmmap (map strip_meta) (first_sets ps pop (fmupd (cid a) (dominated_by a pop) S))"
    by (rule Cons.IH)
  also have "\<dots> = fmmap (map strip_meta) (first_sets (a # ps) pop S)"
    by (simp add: first_sets_def)
  finally show ?case .
qed

lemma first_counters_strip:
  "first_counters (map strip_meta ps) (map strip_meta pop) n = first_counters ps pop n"
  unfolding first_counters_def
  by (induction ps arbitrary: n) (simp_all add: dominator_count_strip)

lemma first_front_strip:
  "first_front (map strip_meta ps) (map strip_meta pop) = map strip_meta (first_front ps pop)"
  by (simp add: first_front_def filter_map o_def dominator_count_strip)

lemma release_strip:
  "release i (map strip_meta qs) (n, map strip_meta nf)
     = map_option (\<lambda>(n', nf'). (n', map strip_meta nf')) (release i qs (n, nf))"
proof (induction qs arbitrary: n nf)
  case Nil
  show ?case by simp
next
  case (Cons q qs)
  show ?case
  proof (cases "fmlookup n (cid q)")
    case None
    then show ?thesis by simp
  next
    case (Some c)
    let ?nf1 = "if c - 1 = 0 then nf @ [q\<lparr>rank := Some (i + 1)\<rparr>] else nf"
    have "release i (map strip_meta (q # qs)) (n, map strip_meta nf)
            = release i (map strip_meta qs) (fmupd (cid q) (c - 1) n, map strip_meta ?nf1)"
      using Some by simp
    also have "\<dots> = map_option (\<lambda>(n', nf'). (n', map strip_meta nf'))
                        (release i qs (fmupd (cid q) (c - 1) n, ?nf1))"
      by (rule Cons.IH)
    also have "\<dots> = map_option (\<lambda>(n', nf'). (n', map strip_meta nf'))
                        (release i (q # qs) (n, nf))"
      using Some by simp
    finally show ?thesis .
  qed
qed

lemma sweep_strip:
  "sweep (fmmap (map strip_meta) S) i (map strip_meta ps) (n, map strip_meta nf)
     = map_option (\<lambda>(n', nf'). (n', map strip_meta nf')) (sweep S i ps (n, nf))"
proof (induction ps arbitrary: n nf)
  case Nil
  show ?case by simp
next
  case (Cons p ps)
  show ?case
  proof (cases "fmlookup S (cid p)")
    case None
    then show ?thesis by simp
  next
    case (Some qs)
    show ?thesis
    proof (cases "release i qs (n, nf)")
      case None
      with Some show ?thesis by (simp add: release_strip)
    next
      case r: (Some st)
      obtain n1 nf1 where st: "st = (n1, nf1)" by (cases st)
      with Some r Cons.IH [of n1 nf1] show ?thesis by (simp add: release_strip)
    qed
  qed
qed

lemma while_fronts_strip:
  "while_fronts (fmmap (map strip_meta) S) n i (map (map strip_meta) earlier) (map strip_meta front)
     = map_option (map (map strip_meta)) (while_fronts S n i earlier front)"
proof (induction S n i earlier front rule: while_fronts.induct)
  case (1 S n i earlier)
  show ?case by simp
next
  case (2 S n i earlier p ps)
  show ?case
  proof (cases "sweep S i (p # ps) (n, [])")
    case None
    from sweep_strip [of S i "p # ps" n "[]"] None
    have "sweep (fmmap (map strip_meta) S) i (strip_meta p # map strip_meta ps) (n, []) = None"
      by simp
    with None show ?thesis by simp
  next
    case (Some st)
    obtain n' new where st: "st = (n', new)" by (cases st)
    from sweep_strip [of S i "p # ps" n "[]"] Some st
    have s: "sweep (fmmap (map strip_meta) S) i (strip_meta p # map strip_meta ps) (n, [])
               = Some (n', map strip_meta new)"
      by simp
    have L: "while_fronts (fmmap (map strip_meta) S) n i (map (map strip_meta) earlier)
               (map strip_meta (p # ps))
             = while_fronts (fmmap (map strip_meta) S) n' (i + 1)
                 (map (map strip_meta) (earlier @ [p # ps])) (map strip_meta new)"
      using s by simp
    have R: "while_fronts S n i earlier (p # ps)
             = while_fronts S n' (i + 1) (earlier @ [p # ps]) new"
      using Some st by simp
    have "while_fronts (fmmap (map strip_meta) S) n' (i + 1)
            (map (map strip_meta) (earlier @ [p # ps])) (map strip_meta new)
          = map_option (map (map strip_meta))
              (while_fronts S n' (i + 1) (earlier @ [p # ps]) new)"
      using Some st by (intro "2.IH" [of st n' new]) simp_all
    then show ?thesis by (simp only: L R)
  qed
qed

lemma sort_strip:
  "fast_nondominated_sort (map strip_meta pop)
     = map_option (map (map strip_meta)) (fast_nondominated_sort pop)"
proof -
  have "while_fronts (fmmap (map strip_meta) (first_sets pop pop fmempty))
           (first_counters pop pop fmempty) 0 (map (map strip_meta) [])
           (map strip_meta (first_front pop pop))
         = map_option (map (map strip_meta))
             (while_fronts (first_sets pop pop fmempty) (first_counters pop pop fmempty) 0 []
                (first_front pop pop))"
    by (rule while_fronts_strip)
  moreover have "first_sets (map strip_meta pop) (map strip_meta pop) fmempty
                   = fmmap (map strip_meta) (first_sets pop pop fmempty)"
    using first_sets_strip [of pop pop fmempty] by simp
  ultimately show ?thesis
    by (simp add: fast_nondominated_sort_def first_pass_closed first_counters_strip
                  first_front_strip)
qed


text \<open>
  C9. Two populations that agree, position by position, on everything but the origin and
  generation fields are both sorted (no key is missing) into fronts that carry the same
  ids in the same order, front by front, and the same ranks; and every member of a front
  is a candidate of its own population with only the rank written, so its origin and
  generation are unchanged.
\<close>

theorem ranking_ignores_origin:
  assumes "map strip_meta pop1 = map strip_meta pop2"
  shows "\<exists>f1 f2. fast_nondominated_sort pop1 = Some f1 \<and> fast_nondominated_sort pop2 = Some f2
           \<and> map (map cid) f1 = map (map cid) f2
           \<and> map (map rank) f1 = map (map rank) f2
           \<and> (\<forall>j < length f1. \<forall>c \<in> set (f1 ! j). \<exists>p \<in> set pop1. c = p\<lparr>rank := Some j\<rparr>)
           \<and> (\<forall>j < length f2. \<forall>c \<in> set (f2 ! j). \<exists>p \<in> set pop2. c = p\<lparr>rank := Some j\<rparr>)"
proof -
  from sort_total [of pop1] obtain f1 where
    f1: "fast_nondominated_sort pop1 = Some f1"
    and r1: "\<forall>j < length f1. set (f1 ! j) \<subseteq> set_rank j ` set pop1"
    by blast
  from sort_total [of pop2] obtain f2 where
    f2: "fast_nondominated_sort pop2 = Some f2"
    and r2: "\<forall>j < length f2. set (f2 ! j) \<subseteq> set_rank j ` set pop2"
    by blast
  have "Some (map (map strip_meta) f1) = fast_nondominated_sort (map strip_meta pop1)"
    by (simp add: sort_strip f1)
  also have "\<dots> = fast_nondominated_sort (map strip_meta pop2)"
    by (simp only: assms)
  also have "\<dots> = Some (map (map strip_meta) f2)"
    by (simp add: sort_strip f2)
  finally have eq: "map (map strip_meta) f1 = map (map strip_meta) f2" by simp
  have ids: "map (map cid) f1 = map (map cid) f2"
    using arg_cong [OF eq, of "map (map cid)"] by (simp add: o_def)
  have ranks: "map (map rank) f1 = map (map rank) f2"
    using arg_cong [OF eq, of "map (map rank)"] by (simp add: o_def)
  have m1: "\<forall>j < length f1. \<forall>c \<in> set (f1 ! j). \<exists>p \<in> set pop1. c = p\<lparr>rank := Some j\<rparr>"
    using r1 by (fastforce simp: set_rank_def)
  have m2: "\<forall>j < length f2. \<forall>c \<in> set (f2 ! j). \<exists>p \<in> set pop2. c = p\<lparr>rank := Some j\<rparr>"
    using r2 by (fastforce simp: set_rank_def)
  from f1 f2 ids ranks m1 m2 show ?thesis by blast
qed

theorem ranking_ignores_origin_witness:
  "map strip_meta [candidate_of ''Y'' 4 4 60, candidate_of ''X'' 5 5 50]
     = map strip_meta [(candidate_of ''Y'' 4 4 60)\<lparr>generation := Some 3, origin := ''SimLab''\<rparr>,
                       candidate_of ''X'' 5 5 50]
   \<and> (\<exists>f1 f2.
         fast_nondominated_sort [candidate_of ''Y'' 4 4 60, candidate_of ''X'' 5 5 50] = Some f1
         \<and> fast_nondominated_sort
               [(candidate_of ''Y'' 4 4 60)\<lparr>generation := Some 3, origin := ''SimLab''\<rparr>,
                candidate_of ''X'' 5 5 50] = Some f2
         \<and> map (map cid) f1 = map (map cid) f2
         \<and> map (map rank) f1 = map (map rank) f2
         \<and> (\<forall>j < length f1. \<forall>c \<in> set (f1 ! j).
                \<exists>p \<in> set [candidate_of ''Y'' 4 4 60, candidate_of ''X'' 5 5 50].
                  c = p\<lparr>rank := Some j\<rparr>)
         \<and> (\<forall>j < length f2. \<forall>c \<in> set (f2 ! j).
                \<exists>p \<in> set [(candidate_of ''Y'' 4 4 60)\<lparr>generation := Some 3, origin := ''SimLab''\<rparr>,
                            candidate_of ''X'' 5 5 50].
                  c = p\<lparr>rank := Some j\<rparr>))"
proof -
  have h: "map strip_meta [candidate_of ''Y'' 4 4 60, candidate_of ''X'' 5 5 50]
     = map strip_meta [(candidate_of ''Y'' 4 4 60)\<lparr>generation := Some 3, origin := ''SimLab''\<rparr>,
                       candidate_of ''X'' 5 5 50]"
    by (simp add: strip_meta_def candidate_of_def)
  show ?thesis by (intro conjI h ranking_ignores_origin [OF h])
qed

section \<open>The ranking scenario\<close>

text \<open>
  C8. The population Y, W, X, Z of the ranking scenario, with the objective values given
  and pairwise distinct ids (whatever their origin, generation and earlier rank), is
  sorted into exactly three fronts: Y and W in front 0, X in front 1, Z in front 2, each
  candidate carrying the rank of its front.
\<close>

theorem scenario_ranking:
  fixes Y W X Z :: "'i candidate"
  assumes "objectives Y = \<lparr>latency = Fin 4, energy = Fin 4, throughput = Fin 60\<rparr>"
    and "objectives W = \<lparr>latency = Fin 3, energy = Fin 8, throughput = Fin 55\<rparr>"
    and "objectives X = \<lparr>latency = Fin 5, energy = Fin 5, throughput = Fin 50\<rparr>"
    and "objectives Z = \<lparr>latency = Fin 10, energy = Fin 10, throughput = Fin 10\<rparr>"
    and "distinct [cid Y, cid W, cid X, cid Z]"
  shows "fast_nondominated_sort [Y, W, X, Z]
           = Some [[Y\<lparr>rank := Some 0\<rparr>, W\<lparr>rank := Some 0\<rparr>],
                   [X\<lparr>rank := Some 1\<rparr>],
                   [Z\<lparr>rank := Some 2\<rparr>]]"
  using assms by (auto simp: fast_nondominated_sort_def dominates_def fge_def fgt_def)

theorem scenario_ranking_witness:
  "fast_nondominated_sort
     [candidate_of ''Y'' 4 4 60, candidate_of ''W'' 3 8 55,
      candidate_of ''X'' 5 5 50, candidate_of ''Z'' 10 10 10]
   = Some [[(candidate_of ''Y'' 4 4 60)\<lparr>rank := Some 0\<rparr>,
            (candidate_of ''W'' 3 8 55)\<lparr>rank := Some 0\<rparr>],
           [(candidate_of ''X'' 5 5 50)\<lparr>rank := Some 1\<rparr>],
           [(candidate_of ''Z'' 10 10 10)\<lparr>rank := Some 2\<rparr>]]"
  by (rule scenario_ranking) (simp_all add: candidate_of_def)


section \<open>Machine arithmetic\<close>

text \<open>
  Where the code computes with floats, the result of every operation is rounded to a
  double, and \<open>np.sum\<close> adds in an order of its own. These operations are parameters of the
  model: \<open>fadd\<close>, \<open>fsub\<close>, \<open>fmul\<close>, \<open>fdiv\<close> and \<open>fsqrt\<close> stand for \<open>+\<close>, \<open>-\<close>, \<open>*\<close>, \<open>/\<close> and
  \<open>sqrt\<close> on doubles and \<open>fsum\<close> for the sum of an array of doubles. A theorem stated for
  every \<open>ops\<close> holds of the double arithmetic of the machine. The infinities and NaN as
  results of an operation are left out.
\<close>

record float_ops =
  fadd :: "real \<Rightarrow> real \<Rightarrow> real"
  fsub :: "real \<Rightarrow> real \<Rightarrow> real"
  fmul :: "real \<Rightarrow> real \<Rightarrow> real"
  fdiv :: "real \<Rightarrow> real \<Rightarrow> real"
  fsqrt :: "real \<Rightarrow> real"
  fsum :: "real list \<Rightarrow> real"

text \<open>Arithmetic without rounding, for computing on inputs where no operation rounds.\<close>

definition exact_ops :: float_ops where
  "exact_ops = \<lparr>fadd = (+), fsub = (-), fmul = (*), fdiv = (/), fsqrt = sqrt, fsum = sum_list\<rparr>"

text \<open>
  The conversion of a 64-bit integer to a double: exact below \<open>2^53\<close>, and otherwise the
  nearest multiple of the spacing of the doubles at that magnitude, a tie going to the
  even multiple.
\<close>

definition round_ties_even :: "int \<Rightarrow> int \<Rightarrow> int" where
  "round_ties_even v q =
     (let d = v div q; r = v mod q
      in if 2 * r < q then d else if q < 2 * r then d + 1 else if even d then d else d + 1)"

definition int64_to_double :: "int \<Rightarrow> real" where
  "int64_to_double v =
     (if \<bar>v\<bar> < 2 ^ 53 then of_int v
      else let q = 2 ^ nat (bitlen \<bar>v\<bar> - 53) in of_int (round_ties_even v q * q))"

section \<open>Objective aggregation (batch\_runner/batch\_runner.py)\<close>

text \<open>
  A cell of the measurement table as \<open>pandas.to_numeric(errors="coerce")\<close> and
  \<open>GroupBy.first\<close>/\<open>last\<close> see it: an integer of an int64 column, or an integer numeral
  of a column of strings (\<open>IntCell\<close>); any other number, which is every number of a float64
  column (\<open>FloatCell\<close>); a value that is present but does not read as a number, coerced to
  NaN (\<open>Unparsed\<close>); or a missing value, NaN (\<open>Missing\<close>, skipped by \<open>first\<close> and \<open>last\<close>).
\<close>

datatype cell = IntCell "64 word" | FloatCell real | Unparsed | Missing

text \<open>
  The data frame: its column names and its rows. The grouping key "node" and the
  timestamp "root\_time\_now" are numeric in every row; the other columns are read through
  \<open>cells\<close>.
\<close>

record table_row =
  node :: nat
  root_time_now :: real
  cells :: "string \<Rightarrow> cell"

record data_frame =
  columns :: "string list"
  rows :: "table_row list"

text \<open>
  A numeric series is an int64 array, whose arithmetic wraps around at \<open>2^63\<close>, or a float64
  array with NaN entries.
\<close>

datatype series = IntSeries "64 word list" | FloatSeries "fnum list"

fun all_ints :: "cell list \<Rightarrow> 64 word list option" where
  "all_ints [] = Some []"
| "all_ints (IntCell w # cs) = map_option ((#) w) (all_ints cs)"
| "all_ints (c # cs) = None"

fun cell_float :: "cell \<Rightarrow> fnum" where
  "cell_float (IntCell w) = Fin (int64_to_double (sint w))"
| "cell_float (FloatCell r) = Fin r"
| "cell_float Unparsed = NaN"
| "cell_float Missing = NaN"

text \<open>
  \<open>pd.to_numeric(s, errors="coerce")\<close>: an int64 series when every value is an integer, and
  otherwise a float64 series in which the values that are no numbers are NaN.
\<close>

definition to_numeric :: "cell list \<Rightarrow> series" where
  "to_numeric s =
     (case all_ints s of
        Some ws \<Rightarrow> IntSeries ws
      | None \<Rightarrow> FloatSeries (map cell_float s))"

fun nan_to_zero :: "fnum \<Rightarrow> real" where
  "nan_to_zero (Fin r) = r"
| "nan_to_zero NaN = 0"

text \<open>
  \<open>Series.sum(skipna=True)\<close> followed by \<open>float\<close>: the int64 sum wraps around; in the float
  sum the NaN entries are replaced by zero.
\<close>

fun series_sum :: "float_ops \<Rightarrow> series \<Rightarrow> real" where
  "series_sum ops (IntSeries ws) = int64_to_double (sint (sum_list ws))"
| "series_sum ops (FloatSeries xs) = fsum ops (map nan_to_zero xs)"


fun as_floats :: "series \<Rightarrow> fnum list" where
  "as_floats (IntSeries ws) = map (\<lambda>w. Fin (int64_to_double (sint w))) ws"
| "as_floats (FloatSeries xs) = xs"

definition column :: "data_frame \<Rightarrow> string \<Rightarrow> cell list" where
  "column df c = map (\<lambda>r. cells r c) (rows df)"



text \<open>\<open>GroupBy.first\<close> and \<open>GroupBy.last\<close>: the first (last) value that is not missing.\<close>

fun first_valid :: "cell list \<Rightarrow> cell" where
  "first_valid [] = Missing"
| "first_valid (Missing # cs) = first_valid cs"
| "first_valid (c # cs) = c"

definition last_valid :: "cell list \<Rightarrow> cell" where
  "last_valid cs = first_valid (rev cs)"

text \<open>
  The difference of two series: the wrapping difference of two int64 series, and otherwise
  the difference of doubles, NaN where one of the two is NaN.
\<close>

fun fnum_sub :: "float_ops \<Rightarrow> fnum \<Rightarrow> fnum \<Rightarrow> fnum" where
  "fnum_sub ops (Fin a) (Fin b) = Fin (fsub ops a b)"
| "fnum_sub ops _ _ = NaN"

fun series_sub :: "float_ops \<Rightarrow> series \<Rightarrow> series \<Rightarrow> series" where
  "series_sub ops (IntSeries xs) (IntSeries ys) = IntSeries (map (\<lambda>(x, y). x - y) (zip xs ys))"
| "series_sub ops a b = FloatSeries (map (\<lambda>(x, y). fnum_sub ops x y) (zip (as_floats a) (as_floats b)))"

fun clip_lower :: "real \<Rightarrow> fnum \<Rightarrow> fnum" where
  "clip_lower lo (Fin a) = Fin (max lo a)"
| "clip_lower lo NaN = NaN"

text \<open>\<open>s.clip(lower=0)\<close>; an int64 entry is negative when its sign bit is set.\<close>

fun clip_lower0 :: "series \<Rightarrow> series" where
  "clip_lower0 (IntSeries ws) = IntSeries (map (\<lambda>w. if sint w < 0 then 0 else w) ws)"
| "clip_lower0 (FloatSeries xs) = FloatSeries (map (clip_lower 0) xs)"

text \<open>
  \<open>df.sort_values([node_col, time_col])\<close> is a stable sort on the pair of keys, here two
  stable sorts, the minor key first. \<open>groupby\<close> lists the groups by ascending key.
\<close>

definition sort_values :: "table_row list \<Rightarrow> table_row list" where
  "sort_values rs = sort_key node (sort_key root_time_now rs)"

text \<open>The groups of \<open>df_sorted.groupby(node_col)[value_col]\<close>, in the order of their keys.\<close>

definition groupby_node :: "table_row list \<Rightarrow> string \<Rightarrow> cell list list" where
  "groupby_node df_sorted value_col =
     map (\<lambda>k. map (\<lambda>r. cells r value_col) [r \<leftarrow> df_sorted. node r = k])
         (remdups (map node df_sorted))"

definition per_node :: "float_ops \<Rightarrow> data_frame \<Rightarrow> string \<Rightarrow> series" where
  "per_node ops df value_col =
     (let df_sorted = sort_values (rows df);
          g = groupby_node df_sorted value_col;
          start = to_numeric (map first_valid g);
          end = to_numeric (map last_valid g)
      in clip_lower0 (series_sub ops end start))"

text \<open>
  \<open>sum_last_minus_first\<close> with the column names that \<open>compute_objectives\<close> passes. Sorting
  by a column that the frame does not have raises KeyError, the result \<open>None\<close>.
\<close>

definition sum_last_minus_first :: "float_ops \<Rightarrow> data_frame \<Rightarrow> string \<Rightarrow> fnum option" where
  "sum_last_minus_first ops df value_col =
     (if value_col \<notin> set (columns df) then Some NaN
      else if ''node'' \<notin> set (columns df) \<or> ''root_time_now'' \<notin> set (columns df) then None
      else Some (Fin (series_sum ops (per_node ops df value_col))))"


subsection \<open>Facts of the arithmetic\<close>

lemma exact_ops_sel:
  "fadd exact_ops a b = a + b" "fsub exact_ops a b = a - b" "fmul exact_ops a b = a * b"
  "fdiv exact_ops a b = a / b" "fsqrt exact_ops a = sqrt a" "fsum exact_ops xs = sum_list xs"
  by (simp_all add: exact_ops_def)

lemma round_ties_even_nonneg: "0 \<le> v \<Longrightarrow> 0 < q \<Longrightarrow> 0 \<le> round_ties_even v q"
  by (simp add: round_ties_even_def Let_def pos_imp_zdiv_nonneg_iff)

lemma int64_to_double_nonneg: "0 \<le> v \<Longrightarrow> 0 \<le> int64_to_double v"
  by (simp add: int64_to_double_def Let_def round_ties_even_nonneg)

lemma int64_to_double_small: "\<bar>v\<bar> < 2 ^ 53 \<Longrightarrow> int64_to_double v = of_int v"
  by (simp add: int64_to_double_def)

lemma sum_list_word_of_int:
  "sum_list ws = (word_of_int (sum_list (map sint ws)) :: 64 word)"
  by (induction ws) simp_all

lemma sint_sum_list:
  fixes ws :: "64 word list"
  assumes "- (2 ^ 63) \<le> sum_list (map sint ws)" and "sum_list (map sint ws) < 2 ^ 63"
  shows "sint (sum_list ws) = sum_list (map sint ws)"
proof -
  have "sint (word_of_int (sum_list (map sint ws)) :: 64 word) = sum_list (map sint ws)"
    using assms by (simp add: sint_sbintrunc' signed_take_bit_int_eq_self)
  then show ?thesis by (simp add: sum_list_word_of_int [symmetric])
qed

subsection \<open>Energy\<close>

text \<open>
  What a cell reads as: an integer, a number, or nothing. A cell that reads as nothing adds
  zero to the float sum of its column.
\<close>

fun is_int :: "cell \<Rightarrow> bool" where
  "is_int (IntCell w) = True"
| "is_int c = False"

fun int_value :: "cell \<Rightarrow> 64 word" where
  "int_value (IntCell w) = w"
| "int_value c = 0"

fun reads_as :: "cell \<Rightarrow> real option" where
  "reads_as (IntCell w) = Some (int64_to_double (sint w))"
| "reads_as (FloatCell r) = Some r"
| "reads_as Unparsed = None"
| "reads_as Missing = None"



lemma cell_float_reads_as:
  "cell_float c = (case reads_as c of Some r \<Rightarrow> Fin r | None \<Rightarrow> NaN)"
  by (cases c) simp_all

lemma all_ints_eq:
  "all_ints cs = (if list_all is_int cs then Some (map int_value cs) else None)"
proof (induction cs)
  case Nil
  show ?case by simp
next
  case (Cons c cs)
  then show ?case by (cases c) simp_all
qed











subsection \<open>Throughput\<close>

text \<open>
  The nodes of the frame in ascending order, and the values that a node has in a column,
  in the order of their timestamps (rows of equal timestamp in the order of the frame).
\<close>

definition nodes_ascending :: "data_frame \<Rightarrow> nat list" where
  "nodes_ascending df = sorted_list_of_set (node ` set (rows df))"

definition time_ordered_values :: "data_frame \<Rightarrow> string \<Rightarrow> nat \<Rightarrow> cell list" where
  "time_ordered_values df value_col k =
     map (\<lambda>r. cells r value_col) (sort_key root_time_now [r \<leftarrow> rows df. node r = k])"

lemma groupby_keys: "remdups (map node (sort_values rs)) = sorted_list_of_set (node ` set rs)"
proof -
  let ?xs = "remdups (map node (sort_values rs))"
  have "sorted (map node (sort_values rs))"
    by (simp add: sort_values_def)
  then have "sorted ?xs" by (rule sorted_remdups)
  moreover have "distinct ?xs" by simp
  moreover have "set ?xs = node ` set rs" by (simp add: sort_values_def)
  ultimately show ?thesis
    by (metis sorted_list_of_set.idem_if_sorted_distinct)
qed

lemma group_rows:
  "[r \<leftarrow> sort_values rs. node r = k] = sort_key root_time_now [r \<leftarrow> rs. node r = k]"
  by (simp add: sort_values_def sort_key_stable filter_sort)

lemma groupby_node_sorted:
  "groupby_node (sort_values (rows df)) value_col
     = map (time_ordered_values df value_col) (nodes_ascending df)"
  by (simp add: groupby_node_def groupby_keys group_rows nodes_ascending_def
                time_ordered_values_def)

lemma per_node_sorted:
  "per_node ops df value_col
     = clip_lower0
         (series_sub ops
            (to_numeric (map (\<lambda>k. last_valid (time_ordered_values df value_col k))
                             (nodes_ascending df)))
            (to_numeric (map (\<lambda>k. first_valid (time_ordered_values df value_col k))
                             (nodes_ascending df))))"
  by (simp add: per_node_def groupby_node_sorted o_def)

text \<open>Every value of a series is at least 0 or, in a float series, NaN.\<close>

fun series_nonneg :: "series \<Rightarrow> bool" where
  "series_nonneg (IntSeries ws) = list_all (\<lambda>w. 0 \<le> sint w) ws"
| "series_nonneg (FloatSeries xs) = list_all (\<lambda>x. case x of Fin y \<Rightarrow> 0 \<le> y | NaN \<Rightarrow> True) xs"

lemma clip_lower0_nonneg: "series_nonneg (clip_lower0 s)"
proof (cases s)
  case (IntSeries ws)
  then show ?thesis by (auto simp: list_all_iff)
next
  case (FloatSeries xs)
  have "(case clip_lower 0 x of Fin y \<Rightarrow> 0 \<le> y | NaN \<Rightarrow> True)" for x
    by (cases x) simp_all
  with FloatSeries show ?thesis by (simp add: list_all_iff)
qed

lemma per_node_nonneg: "series_nonneg (per_node ops df value_col)"
  by (simp add: per_node_def Let_def clip_lower0_nonneg)

text \<open>
  The int64 counter of a node at its rows in time order, and the clamp of an int64 value.
\<close>

definition counter_values :: "data_frame \<Rightarrow> string \<Rightarrow> nat \<Rightarrow> 64 word list" where
  "counter_values df value_col k = map int_value (time_ordered_values df value_col k)"

definition clamp_int64 :: "64 word \<Rightarrow> 64 word" where
  "clamp_int64 w = (if sint w < 0 then 0 else w)"

text \<open>The clamped difference of two cells in doubles, NaN when one reads as nothing.\<close>

definition clamped_difference :: "float_ops \<Rightarrow> cell \<Rightarrow> cell \<Rightarrow> fnum" where
  "clamped_difference ops l f =
     (case (reads_as l, reads_as f) of
        (Some b, Some a) \<Rightarrow> Fin (max 0 (fsub ops b a))
      | _ \<Rightarrow> NaN)"

lemma all_ints_map_IntCell [simp]: "all_ints (map IntCell ws) = Some ws"
  by (induction ws) simp_all

lemma all_ints_SomeD: "all_ints cs = Some ws \<Longrightarrow> cs = map IntCell ws"
proof (induction cs arbitrary: ws)
  case Nil
  then show ?case by simp
next
  case (Cons c cs)
  then show ?case by (cases c) auto
qed

lemma first_valid_ints: "ws \<noteq> [] \<Longrightarrow> first_valid (map IntCell ws) = IntCell (hd ws)"
  by (cases ws) simp_all

lemma last_valid_ints: "ws \<noteq> [] \<Longrightarrow> last_valid (map IntCell ws) = IntCell (last ws)"
  by (simp add: last_valid_def rev_map first_valid_ints hd_rev)

lemma node_history_nonempty:
  assumes "k \<in> set (nodes_ascending df)"
  shows "counter_values df value_col k \<noteq> []"
proof -
  from assms have "k \<in> node ` set (rows df)" by (simp add: nodes_ascending_def)
  then have "[r \<leftarrow> rows df. node r = k] \<noteq> []" by (auto simp: filter_empty_conv)
  then have "length (sort_key root_time_now [r \<leftarrow> rows df. node r = k]) \<noteq> 0" by simp
  then have "sort_key root_time_now [r \<leftarrow> rows df. node r = k] \<noteq> []" by fastforce
  then show ?thesis
    by (simp add: counter_values_def time_ordered_values_def)
qed

lemma is_int_value: "is_int c \<Longrightarrow> IntCell (int_value c) = c"
  by (cases c) simp_all

lemma int_column_history:
  assumes "list_all is_int (column df value_col)"
  shows "time_ordered_values df value_col k = map IntCell (counter_values df value_col k)"
proof -
  have "IntCell (int_value c) = c" if "c \<in> set (time_ordered_values df value_col k)" for c
  proof -
    from that obtain r where "r \<in> set (rows df)" and "c = cells r value_col"
      by (auto simp: time_ordered_values_def)
    with assms have "is_int c" by (auto simp: list_all_iff column_def)
    then show ?thesis by (rule is_int_value)
  qed
  then show ?thesis
    unfolding counter_values_def by (simp add: map_idI o_def)
qed

lemma per_node_int_column:
  assumes "list_all is_int (column df value_col)"
  shows "per_node ops df value_col
           = IntSeries (map (\<lambda>k. clamp_int64 (last (counter_values df value_col k)
                                                 - hd (counter_values df value_col k)))
                            (nodes_ascending df))"
proof -
  note h = int_column_history [OF assms] node_history_nonempty
  have l: "map (\<lambda>k. last_valid (time_ordered_values df value_col k)) (nodes_ascending df)
             = map IntCell (map (\<lambda>k. last (counter_values df value_col k)) (nodes_ascending df))"
    by (simp add: h last_valid_ints)
  have f: "map (\<lambda>k. first_valid (time_ordered_values df value_col k)) (nodes_ascending df)
             = map IntCell (map (\<lambda>k. hd (counter_values df value_col k)) (nodes_ascending df))"
    by (simp add: h first_valid_ints)
  show ?thesis
    unfolding per_node_sorted l f
    by (simp only: to_numeric_def all_ints_map_IntCell option.case series_sub.simps
                   clip_lower0.simps)
       (simp add: zip_map_map zip_same_conv_map o_def clamp_int64_def)
qed

lemma as_floats_to_numeric: "as_floats (to_numeric cs) = map cell_float cs"
proof -
  have "Fin (int64_to_double (sint (int_value c))) = cell_float c" if "is_int c" for c
    using that by (cases c) simp_all
  then show ?thesis
    by (simp add: to_numeric_def all_ints_eq o_def list_all_iff)
qed

lemma per_node_float:
  assumes "\<not> list_all is_int (map (\<lambda>k. last_valid (time_ordered_values df value_col k))
                                  (nodes_ascending df))
         \<or> \<not> list_all is_int (map (\<lambda>k. first_valid (time_ordered_values df value_col k))
                                    (nodes_ascending df))"
  shows "per_node ops df value_col
           = FloatSeries (map (\<lambda>k. clamped_difference ops
                                       (last_valid (time_ordered_values df value_col k))
                                       (first_valid (time_ordered_values df value_col k)))
                              (nodes_ascending df))"
proof -
  let ?l = "map (\<lambda>k. last_valid (time_ordered_values df value_col k)) (nodes_ascending df)"
  let ?f = "map (\<lambda>k. first_valid (time_ordered_values df value_col k)) (nodes_ascending df)"
  have sub: "series_sub ops (to_numeric ?l) (to_numeric ?f)
               = FloatSeries (map (\<lambda>(x, y). fnum_sub ops x y)
                                  (zip (as_floats (to_numeric ?l)) (as_floats (to_numeric ?f))))"
    using assms by (cases "to_numeric ?l"; cases "to_numeric ?f")
                   (auto simp: to_numeric_def all_ints_eq split: if_splits)
  have one: "clip_lower 0 (fnum_sub ops (cell_float l) (cell_float f)) = clamped_difference ops l f"
    for l f
    by (cases l; cases f) (simp_all add: clamped_difference_def)
  show ?thesis
    unfolding per_node_sorted sub as_floats_to_numeric
    by (simp add: zip_map_map zip_same_conv_map o_def one)
qed

lemma per_node_int:
  assumes "list_all is_int (map (\<lambda>k. last_valid (time_ordered_values df value_col k))
                               (nodes_ascending df))"
    and "list_all is_int (map (\<lambda>k. first_valid (time_ordered_values df value_col k))
                               (nodes_ascending df))"
  shows "per_node ops df value_col
           = IntSeries (map (\<lambda>k. clamp_int64
                                     (int_value (last_valid (time_ordered_values df value_col k))
                                      - int_value (first_valid (time_ordered_values df value_col k))))
                            (nodes_ascending df))"
  unfolding per_node_sorted using assms
  by (simp add: to_numeric_def all_ints_eq zip_map_map zip_same_conv_map o_def clamp_int64_def)

lemma int_total:
  assumes "per_node ops df value_col = IntSeries ws" and "sum_list (map sint ws) < 2 ^ 63"
  shows "series_sum ops (per_node ops df value_col) = int64_to_double (sum_list (map sint ws))"
    and "0 \<le> int64_to_double (sum_list (map sint ws))"
proof -
  from per_node_nonneg [of ops df value_col] assms(1)
  have "\<forall>w \<in> set ws. 0 \<le> sint w" by (simp add: list_all_iff)
  then have nn: "0 \<le> sum_list (map sint ws)" by (intro sum_list_nonneg) auto
  then have "sint (sum_list ws) = sum_list (map sint ws)"
    using assms(2) by (intro sint_sum_list) simp_all
  then show "series_sum ops (per_node ops df value_col) = int64_to_double (sum_list (map sint ws))"
    by (simp add: assms(1))
  from nn show "0 \<le> int64_to_double (sum_list (map sint ws))"
    by (rule int64_to_double_nonneg)
qed

lemma float_total:
  assumes "per_node ops df value_col = FloatSeries xs"
    and "\<forall>ys. list_all (\<lambda>y. 0 \<le> y) ys \<longrightarrow> 0 \<le> fsum ops ys"
  shows "0 \<le> series_sum ops (per_node ops df value_col)"
proof -
  from per_node_nonneg [of ops df value_col] assms(1)
  have "\<forall>x \<in> set xs. case x of Fin y \<Rightarrow> 0 \<le> y | NaN \<Rightarrow> True" by (simp add: list_all_iff)
  then have "0 \<le> nan_to_zero x" if "x \<in> set xs" for x
    using that by (cases x) auto
  then have "list_all (\<lambda>y. 0 \<le> y) (map nan_to_zero xs)" by (simp add: list_all_iff)
  with assms(2) show ?thesis by (simp add: assms(1))
qed

definition scenario_frame :: data_frame where
  "scenario_frame =
     \<lparr>columns = [''node'', ''root_time_now'', ''c''],
      rows = [\<lparr>node = 1, root_time_now = 0, cells = (\<lambda>_. Missing)(''c'' := IntCell 5)\<rparr>,
              \<lparr>node = 1, root_time_now = 1, cells = (\<lambda>_. Missing)(''c'' := IntCell 3)\<rparr>]\<rparr>"

definition overflow_frame :: data_frame where
  "overflow_frame =
     \<lparr>columns = [''node'', ''root_time_now'', ''c''],
      rows = [\<lparr>node = 1, root_time_now = 0, cells = (\<lambda>_. Missing)(''c'' := IntCell 0)\<rparr>,
              \<lparr>node = 1, root_time_now = 1,
                cells = (\<lambda>_. Missing)(''c'' := IntCell 9223372036854775807)\<rparr>,
              \<lparr>node = 2, root_time_now = 0, cells = (\<lambda>_. Missing)(''c'' := IntCell 0)\<rparr>,
              \<lparr>node = 2, root_time_now = 1,
                cells = (\<lambda>_. Missing)(''c'' := IntCell 9223372036854775807)\<rparr>]\<rparr>"

lemma per_node_scenario: "per_node ops scenario_frame ''c'' = IntSeries [0]"
  by (simp add: per_node_def sort_values_def groupby_node_def scenario_frame_def last_valid_def
                to_numeric_def)

lemma total_scenario: "sum_last_minus_first ops scenario_frame ''c'' = Some (Fin 0)"
  by (simp add: sum_last_minus_first_def per_node_scenario int64_to_double_def)
     (simp add: scenario_frame_def)

text \<open>
  C7, as amended. On a frame that has the counter column and the node and time columns by
  which it is sorted and grouped, the throughput is a number, the sum of the per-node
  values. The per-node values are, for the nodes in ascending order, the last value of the
  node that is not missing minus the first one, the values of the node taken in the order
  of their timestamps, clamped below at 0. When the first and the last value of every node
  are integers (as in an int64 column, where they are the first and the last value of the
  counter of the node), the difference is the int64 difference, which wraps around at
  \<open>2^63\<close>; otherwise it is the difference in doubles, NaN when one of the two values
  does not read as a number. Every per-node value is at least 0 or NaN, and NaN adds
  nothing to the sum. The total is at least 0 when the int64 sum of the per-node values
  stays below \<open>2^63\<close>, and in a float series when the sum of non-negative doubles is
  not negative. The two rows of the scenario give the per-node value 0 and the total 0.
\<close>

theorem throughput_clamped:
  assumes "value_col \<in> set (columns df)"
    and "''node'' \<in> set (columns df)" and "''root_time_now'' \<in> set (columns df)"
  shows "sum_last_minus_first ops df value_col
           = Some (Fin (series_sum ops (per_node ops df value_col)))
     \<and> per_node ops df value_col
         = clip_lower0
             (series_sub ops
                (to_numeric (map (\<lambda>k. last_valid (time_ordered_values df value_col k))
                                 (nodes_ascending df)))
                (to_numeric (map (\<lambda>k. first_valid (time_ordered_values df value_col k))
                                 (nodes_ascending df))))
     \<and> series_nonneg (per_node ops df value_col)
     \<and> (\<forall>k \<in> set (nodes_ascending df). counter_values df value_col k \<noteq> [])
     \<and> (list_all is_int (column df value_col) \<longrightarrow>
          per_node ops df value_col
            = IntSeries (map (\<lambda>k. clamp_int64 (last (counter_values df value_col k)
                                                  - hd (counter_values df value_col k)))
                             (nodes_ascending df)))
     \<and> (list_all is_int (map (\<lambda>k. last_valid (time_ordered_values df value_col k))
                                (nodes_ascending df))
         \<and> list_all is_int (map (\<lambda>k. first_valid (time_ordered_values df value_col k))
                                  (nodes_ascending df)) \<longrightarrow>
          per_node ops df value_col
            = IntSeries (map (\<lambda>k. clamp_int64
                                      (int_value (last_valid (time_ordered_values df value_col k))
                                       - int_value (first_valid (time_ordered_values df value_col k))))
                             (nodes_ascending df)))
     \<and> (\<not> list_all is_int (map (\<lambda>k. last_valid (time_ordered_values df value_col k))
                                  (nodes_ascending df))
         \<or> \<not> list_all is_int (map (\<lambda>k. first_valid (time_ordered_values df value_col k))
                                    (nodes_ascending df)) \<longrightarrow>
          per_node ops df value_col
            = FloatSeries (map (\<lambda>k. clamped_difference ops
                                        (last_valid (time_ordered_values df value_col k))
                                        (first_valid (time_ordered_values df value_col k)))
                               (nodes_ascending df)))
     \<and> (\<forall>ws. per_node ops df value_col = IntSeries ws \<and> sum_list (map sint ws) < 2 ^ 63 \<longrightarrow>
          sum_last_minus_first ops df value_col
            = Some (Fin (int64_to_double (sum_list (map sint ws))))
          \<and> 0 \<le> int64_to_double (sum_list (map sint ws)))
     \<and> (\<forall>xs. per_node ops df value_col = FloatSeries xs
              \<and> (\<forall>ys. list_all (\<lambda>y. 0 \<le> y) ys \<longrightarrow> 0 \<le> fsum ops ys) \<longrightarrow>
          0 \<le> series_sum ops (per_node ops df value_col))
     \<and> per_node ops scenario_frame ''c'' = IntSeries [0]
     \<and> sum_last_minus_first ops scenario_frame ''c'' = Some (Fin 0)"
proof -
  have total: "sum_last_minus_first ops df value_col
                 = Some (Fin (series_sum ops (per_node ops df value_col)))"
    using assms by (simp add: sum_last_minus_first_def)
  have ints: "list_all is_int (column df value_col) \<longrightarrow>
          per_node ops df value_col
            = IntSeries (map (\<lambda>k. clamp_int64 (last (counter_values df value_col k)
                                                  - hd (counter_values df value_col k)))
                             (nodes_ascending df))"
    using per_node_int_column by blast
  have ints2: "list_all is_int (map (\<lambda>k. last_valid (time_ordered_values df value_col k))
                                (nodes_ascending df))
         \<and> list_all is_int (map (\<lambda>k. first_valid (time_ordered_values df value_col k))
                                  (nodes_ascending df)) \<longrightarrow>
          per_node ops df value_col
            = IntSeries (map (\<lambda>k. clamp_int64
                                      (int_value (last_valid (time_ordered_values df value_col k))
                                       - int_value (first_valid (time_ordered_values df value_col k))))
                             (nodes_ascending df))"
    using per_node_int by blast
  have floats: "\<not> list_all is_int (map (\<lambda>k. last_valid (time_ordered_values df value_col k))
                                  (nodes_ascending df))
         \<or> \<not> list_all is_int (map (\<lambda>k. first_valid (time_ordered_values df value_col k))
                                    (nodes_ascending df)) \<longrightarrow>
          per_node ops df value_col
            = FloatSeries (map (\<lambda>k. clamped_difference ops
                                        (last_valid (time_ordered_values df value_col k))
                                        (first_valid (time_ordered_values df value_col k)))
                               (nodes_ascending df))"
    using per_node_float by blast
  have intsum: "\<forall>ws. per_node ops df value_col = IntSeries ws \<and> sum_list (map sint ws) < 2 ^ 63 \<longrightarrow>
          sum_last_minus_first ops df value_col
            = Some (Fin (int64_to_double (sum_list (map sint ws))))
          \<and> 0 \<le> int64_to_double (sum_list (map sint ws))"
    using int_total [of ops df value_col] by (simp add: total)
  have floatsum: "\<forall>xs. per_node ops df value_col = FloatSeries xs
              \<and> (\<forall>ys. list_all (\<lambda>y. 0 \<le> y) ys \<longrightarrow> 0 \<le> fsum ops ys) \<longrightarrow>
          0 \<le> series_sum ops (per_node ops df value_col)"
    using float_total [of ops df value_col] by blast
  have nonempty: "\<forall>k \<in> set (nodes_ascending df). counter_values df value_col k \<noteq> []"
    by (auto dest: node_history_nonempty)
  show ?thesis
    by (intro conjI total per_node_sorted per_node_nonneg nonempty ints ints2 floats intsum
              floatsum per_node_scenario total_scenario)
qed

text \<open>
  Two frames whose rows are not in time order: an int64 counter of two nodes, and a float
  counter with a missing value and a node whose only value does not read as a number.
\<close>

definition shuffled_frame :: data_frame where
  "shuffled_frame =
     \<lparr>columns = [''node'', ''root_time_now'', ''c''],
      rows = [\<lparr>node = 2, root_time_now = 1, cells = (\<lambda>_. Missing)(''c'' := IntCell 9)\<rparr>,
              \<lparr>node = 1, root_time_now = 1, cells = (\<lambda>_. Missing)(''c'' := IntCell 3)\<rparr>,
              \<lparr>node = 2, root_time_now = 0, cells = (\<lambda>_. Missing)(''c'' := IntCell 4)\<rparr>,
              \<lparr>node = 1, root_time_now = 0, cells = (\<lambda>_. Missing)(''c'' := IntCell 5)\<rparr>]\<rparr>"

definition float_frame :: data_frame where
  "float_frame =
     \<lparr>columns = [''node'', ''root_time_now'', ''c''],
      rows = [\<lparr>node = 2, root_time_now = 0, cells = (\<lambda>_. Missing)(''c'' := Unparsed)\<rparr>,
              \<lparr>node = 1, root_time_now = 2, cells = (\<lambda>_. Missing)(''c'' := FloatCell 4)\<rparr>,
              \<lparr>node = 1, root_time_now = 1, cells = (\<lambda>_. Missing)\<rparr>,
              \<lparr>node = 1, root_time_now = 0,
                cells = (\<lambda>_. Missing)(''c'' := FloatCell (3 / 2))\<rparr>]\<rparr>"

lemma nodes_ascending_eval: "nodes_ascending df = remdups (map node (sort_values (rows df)))"
  by (simp add: nodes_ascending_def groupby_keys)

theorem throughput_clamped_witness:
  "''c'' \<in> set (columns shuffled_frame) \<and> ''node'' \<in> set (columns shuffled_frame)
   \<and> ''root_time_now'' \<in> set (columns shuffled_frame)
   \<and> list_all is_int (column shuffled_frame ''c'')
   \<and> nodes_ascending shuffled_frame = [1, 2]
   \<and> counter_values shuffled_frame ''c'' 1 = [5, 3]
   \<and> counter_values shuffled_frame ''c'' 2 = [4, 9]
   \<and> per_node exact_ops shuffled_frame ''c''
       = IntSeries (map (\<lambda>k. clamp_int64 (last (counter_values shuffled_frame ''c'' k)
                                             - hd (counter_values shuffled_frame ''c'' k)))
                        (nodes_ascending shuffled_frame))
   \<and> per_node exact_ops shuffled_frame ''c'' = IntSeries [0, 5]
   \<and> sum_list (map sint [0, 5 :: 64 word]) < 2 ^ 63
   \<and> sum_last_minus_first exact_ops shuffled_frame ''c''
       = Some (Fin (int64_to_double (sum_list (map sint [0, 5 :: 64 word]))))
   \<and> sum_last_minus_first exact_ops shuffled_frame ''c'' = Some (Fin 5)
   \<and> ''c'' \<in> set (columns float_frame) \<and> ''node'' \<in> set (columns float_frame)
   \<and> ''root_time_now'' \<in> set (columns float_frame)
   \<and> nodes_ascending float_frame = [1, 2]
   \<and> time_ordered_values float_frame ''c'' 1 = [FloatCell (3 / 2), Missing, FloatCell 4]
   \<and> time_ordered_values float_frame ''c'' 2 = [Unparsed]
   \<and> \<not> list_all is_int (map (\<lambda>k. last_valid (time_ordered_values float_frame ''c'' k))
                                (nodes_ascending float_frame))
   \<and> per_node exact_ops float_frame ''c''
       = FloatSeries (map (\<lambda>k. clamped_difference exact_ops
                                   (last_valid (time_ordered_values float_frame ''c'' k))
                                   (first_valid (time_ordered_values float_frame ''c'' k)))
                          (nodes_ascending float_frame))
   \<and> per_node exact_ops float_frame ''c'' = FloatSeries [Fin (5 / 2), NaN]
   \<and> sum_last_minus_first exact_ops float_frame ''c'' = Some (Fin (5 / 2))
   \<and> 0 \<le> series_sum exact_ops (per_node exact_ops float_frame ''c'')"
proof -
  have c1: "''c'' \<in> set (columns shuffled_frame)" and c2: "''node'' \<in> set (columns shuffled_frame)"
    and c3: "''root_time_now'' \<in> set (columns shuffled_frame)"
    by (simp_all add: shuffled_frame_def)
  have d1: "''c'' \<in> set (columns float_frame)" and d2: "''node'' \<in> set (columns float_frame)"
    and d3: "''root_time_now'' \<in> set (columns float_frame)"
    by (simp_all add: float_frame_def)
  note a = throughput_clamped [OF c1 c2 c3, of exact_ops]
  note b = throughput_clamped [OF d1 d2 d3, of exact_ops]
  have ints: "list_all is_int (column shuffled_frame ''c'')"
    by (simp add: column_def shuffled_frame_def)
  have keys: "nodes_ascending shuffled_frame = [1, 2]"
    by (simp add: nodes_ascending_eval sort_values_def shuffled_frame_def)
  have v1: "counter_values shuffled_frame ''c'' 1 = [5, 3]"
    by (simp add: counter_values_def time_ordered_values_def shuffled_frame_def)
  have v2: "counter_values shuffled_frame ''c'' 2 = [4, 9]"
    by (simp add: counter_values_def time_ordered_values_def shuffled_frame_def)
  from a ints have p: "per_node exact_ops shuffled_frame ''c''
       = IntSeries (map (\<lambda>k. clamp_int64 (last (counter_values shuffled_frame ''c'' k)
                                             - hd (counter_values shuffled_frame ''c'' k)))
                        (nodes_ascending shuffled_frame))"
    by blast
  have "counter_values shuffled_frame ''c'' (Suc 0) = [5, 3]"
    using v1 by simp
  with p have q: "per_node exact_ops shuffled_frame ''c'' = IntSeries [0, 5]"
    by (simp add: keys v2 clamp_int64_def)
  have s: "sum_list (map sint [0, 5 :: 64 word]) < 2 ^ 63" by simp
  from a q s have t: "sum_last_minus_first exact_ops shuffled_frame ''c''
       = Some (Fin (int64_to_double (sum_list (map sint [0, 5 :: 64 word]))))"
    by blast
  then have u: "sum_last_minus_first exact_ops shuffled_frame ''c'' = Some (Fin 5)"
    by (simp add: int64_to_double_def)
  have fkeys: "nodes_ascending float_frame = [1, 2]"
    by (simp add: nodes_ascending_eval sort_values_def float_frame_def)
  have h1: "time_ordered_values float_frame ''c'' (Suc 0)
              = [FloatCell (3 / 2), Missing, FloatCell 4]"
    by (simp add: time_ordered_values_def float_frame_def)
  have h2: "time_ordered_values float_frame ''c'' 2 = [Unparsed]"
    by (simp add: time_ordered_values_def float_frame_def)
  have h1': "time_ordered_values float_frame ''c'' 1 = [FloatCell (3 / 2), Missing, FloatCell 4]"
    using h1 by simp
  have nint: "\<not> list_all is_int (map (\<lambda>k. last_valid (time_ordered_values float_frame ''c'' k))
                                       (nodes_ascending float_frame))"
    by (simp add: fkeys h1 h2 last_valid_def)
  from b nint have fq: "per_node exact_ops float_frame ''c''
       = FloatSeries (map (\<lambda>k. clamped_difference exact_ops
                                   (last_valid (time_ordered_values float_frame ''c'' k))
                                   (first_valid (time_ordered_values float_frame ''c'' k)))
                          (nodes_ascending float_frame))"
    by blast
  then have fp: "per_node exact_ops float_frame ''c'' = FloatSeries [Fin (5 / 2), NaN]"
    by (simp add: fkeys h1 h2 last_valid_def clamped_difference_def exact_ops_sel)
  have mono: "\<forall>ys. list_all (\<lambda>y. 0 \<le> y) ys \<longrightarrow> 0 \<le> fsum exact_ops ys"
    by (simp add: exact_ops_sel list_all_iff sum_list_nonneg)
  from b fp mono have nn: "0 \<le> series_sum exact_ops (per_node exact_ops float_frame ''c'')"
    by blast
  from b have "sum_last_minus_first exact_ops float_frame ''c''
                 = Some (Fin (series_sum exact_ops (per_node exact_ops float_frame ''c'')))"
    by blast
  then have ft: "sum_last_minus_first exact_ops float_frame ''c'' = Some (Fin (5 / 2))"
    by (simp add: fp exact_ops_sel)
  show ?thesis
    by (intro conjI c1 c2 c3 ints keys v1 v2 p q s t u d1 d2 d3 fkeys h1' h2 nint fq fp ft nn)
qed

text \<open>
  C7 as written fails: two nodes whose counter goes from 0 to \<open>2^63 - 1\<close> have the
  per-node values \<open>2^63 - 1\<close> each, and the int64 sum of the two wraps around: the total
  throughput is \<open>-2\<close>.
\<close>

theorem counter_sum_wraps:
  "sum_last_minus_first exact_ops overflow_frame ''c'' = Some (Fin (- 2))
   \<and> per_node exact_ops overflow_frame ''c''
       = IntSeries [9223372036854775807, 9223372036854775807]
   \<and> \<not> (0 :: real) \<le> - 2"
proof -
  have p: "per_node exact_ops overflow_frame ''c''
             = IntSeries [9223372036854775807, 9223372036854775807]"
    by (simp add: per_node_def sort_values_def groupby_node_def overflow_frame_def last_valid_def
                  to_numeric_def)
  have "sum_last_minus_first exact_ops overflow_frame ''c'' = Some (Fin (- 2))"
    by (simp add: sum_last_minus_first_def p int64_to_double_def) (simp add: overflow_frame_def)
  with p show ?thesis by simp
qed

section \<open>Trajectory synthesis (batch\_runner/lib/parse\_json\_pos\_dat.py)\<close>

text \<open>
  A mobile mote of the configuration. A path segment is a pair of expressions in \<open>t\<close>;
  \<open>eval\<close> turns each into a function of \<open>t\<close>, which is what the model takes (an expression
  that fails to evaluate is outside the model). Coordinates, distances and times are
  doubles, computed with the operations of \<open>float_ops\<close>.
\<close>

record mobile_mote =
  functionPath :: "((real \<Rightarrow> real) \<times> (real \<Rightarrow> real)) list"
  speed :: real
  timeStep :: real
  isRoundTrip :: bool

record trajectory =
  mote_id :: nat
  x_full :: "real list"
  y_full :: "real list"
  time_step :: real

text \<open>A line of the mobile part of the output file.\<close>

record position_sample =
  sample_mote :: nat
  elapsed :: real
  pos_x :: real
  pos_y :: real

text \<open>
  What the function can raise: \<open>int\<close> of an infinity (OverflowError) or of NaN
  (ValueError) when the speed or the time step is zero, since numpy divides by zero
  without raising, and \<open>x_full[0]\<close> on an empty path (IndexError).
\<close>

datatype synth_error = ValueError | OverflowError | IndexError

text \<open>
  \<open>np.linspace(0, 1, num)\<close>: the multiples of the step \<open>1 / (num - 1)\<close>, the last point set
  to 1; a single point is 0.
\<close>

definition linspace01 :: "float_ops \<Rightarrow> nat \<Rightarrow> real list" where
  "linspace01 ops num =
     (if num = 1 then [0]
      else let step = fdiv ops 1 (real (num - 1))
           in (map (\<lambda>k. fmul ops (real k) step) [0..<num])[num - 1 := 1])"

definition evaluate_function :: "(real \<Rightarrow> real) \<Rightarrow> real list \<Rightarrow> real list" where
  "evaluate_function expression t_values = map expression t_values"

text \<open>\<open>np.diff\<close>.\<close>

definition np_diff :: "float_ops \<Rightarrow> real list \<Rightarrow> real list" where
  "np_diff ops xs = map (\<lambda>(a, b). fsub ops b a) (zip xs (tl xs))"

text \<open>\<open>np.sum(np.sqrt(np.diff(x_vals)**2 + np.diff(y_vals)**2))\<close>.\<close>

definition segment_distance :: "float_ops \<Rightarrow> real list \<Rightarrow> real list \<Rightarrow> real" where
  "segment_distance ops x_vals y_vals =
     fsum ops (map (\<lambda>(dx, dy). fsqrt ops (fadd ops (fmul ops dx dx) (fmul ops dy dy)))
                   (zip (np_diff ops x_vals) (np_diff ops y_vals)))"

text \<open>
  \<open>np.interp(x, xp, fp)\<close> at one point, over the sample points \<open>zip xp fp\<close>: the value at a
  sample point that \<open>x\<close> hits, the end values outside the range of \<open>xp\<close>, and between two
  neighbours \<open>slope * (x - xp[j]) + fp[j]\<close>. The sample arrays of the code have 100
  points, so the first equation is never used.
\<close>

fun interp_point :: "float_ops \<Rightarrow> real \<Rightarrow> (real \<times> real) list \<Rightarrow> real" where
  "interp_point ops x [] = 0"
| "interp_point ops x [(a, fa)] = fa"
| "interp_point ops x ((a, fa) # (b, fb) # pts) =
     (if x \<le> a then fa
      else if x < b
      then let slope = fdiv ops (fsub ops fb fa) (fsub ops b a)
           in fadd ops (fmul ops slope (fsub ops x a)) fa
      else interp_point ops x ((b, fb) # pts))"

definition np_interp :: "float_ops \<Rightarrow> real list \<Rightarrow> real list \<Rightarrow> real list \<Rightarrow> real list" where
  "np_interp ops xs xp fp = map (\<lambda>x. interp_point ops x (zip xp fp)) xs"

text \<open>Python's \<open>int\<close> of a float: truncation towards zero.\<close>

definition py_int :: "real \<Rightarrow> int" where
  "py_int x = (if 0 \<le> x then \<lfloor>x\<rfloor> else \<lceil>x\<rceil>)"

text \<open>The sampled segments \<open>x_all\<close>, \<open>y_all\<close> and \<open>segment_distances\<close> of one mote.\<close>

definition sample_segments :: "float_ops \<Rightarrow> mobile_mote \<Rightarrow> (real list \<times> real list) list" where
  "sample_segments ops m =
     map (\<lambda>(x_expr, y_expr).
            let t_values = linspace01 ops 100
            in (evaluate_function x_expr t_values, evaluate_function y_expr t_values))
         (functionPath m)"

definition segment_distances :: "float_ops \<Rightarrow> mobile_mote \<Rightarrow> real list" where
  "segment_distances ops m =
     map (\<lambda>(x_vals, y_vals). segment_distance ops x_vals y_vals) (sample_segments ops m)"

definition total_distance :: "float_ops \<Rightarrow> mobile_mote \<Rightarrow> real" where
  "total_distance ops m = fsum ops (segment_distances ops m)"

text \<open>
  \<open>total_steps = max(1, int(total_duration / time_step))\<close>, both quotients in doubles. The
  count is at least 1, so it is a natural number.
\<close>

definition total_steps :: "float_ops \<Rightarrow> mobile_mote \<Rightarrow> synth_error + nat" where
  "total_steps ops m =
     (if speed m = 0 then Inl (if total_distance ops m = 0 then ValueError else OverflowError)
      else
        let total_duration = fdiv ops (total_distance ops m) (speed m)
        in if timeStep m = 0
           then Inl (if total_duration = 0 then ValueError else OverflowError)
           else Inr (nat (max 1 (py_int (fdiv ops total_duration (timeStep m))))))"

text \<open>
  The two lines that allocate the steps of a segment. The proportion is a double, the
  quotient of the two lengths, and its product with the budget is a double; when the
  total length is not positive the proportion is the integer 1 and the product is exact.
\<close>

definition seg_steps :: "float_ops \<Rightarrow> real \<Rightarrow> real \<Rightarrow> nat \<Rightarrow> nat" where
  "seg_steps ops seg_dist total_dist steps =
     (if total_dist > 0
      then let proportion = fdiv ops seg_dist total_dist
           in nat (max 1 (py_int (fmul ops proportion (real steps))))
      else let proportion = 1
           in nat (max 1 (proportion * int steps)))"

definition resample :: "float_ops \<Rightarrow> nat \<Rightarrow> real list \<Rightarrow> real list" where
  "resample ops n vals = np_interp ops (linspace01 ops n) (linspace01 ops (length vals)) vals"

text \<open>The pairs \<open>x_interp\<close>, \<open>y_interp\<close> of the second loop over the segments.\<close>

definition resampled_segments ::
  "float_ops \<Rightarrow> mobile_mote \<Rightarrow> nat \<Rightarrow> (real list \<times> real list) list" where
  "resampled_segments ops m steps =
     map (\<lambda>((x_vals, y_vals), seg_dist).
            let n = seg_steps ops seg_dist (total_distance ops m) steps
            in (resample ops n x_vals, resample ops n y_vals))
         (zip (sample_segments ops m) (segment_distances ops m))"

text \<open>\<open>x_full\<close> and \<open>y_full\<close> before the round trip.\<close>

definition forward_path :: "float_ops \<Rightarrow> mobile_mote \<Rightarrow> nat \<Rightarrow> real list \<times> real list" where
  "forward_path ops m steps =
     (let parts = resampled_segments ops m steps
      in (concat (map fst parts), concat (map snd parts)))"

text \<open>
  The body of the loop over the mobile motes: the step budget of the mote, its trajectory
  and its start position.
\<close>

definition synthesize_mote ::
  "float_ops \<Rightarrow> nat \<Rightarrow> mobile_mote \<Rightarrow> synth_error + (nat \<times> trajectory \<times> (real \<times> real))" where
  "synthesize_mote ops mote_index m =
     (case total_steps ops m of
        Inl e \<Rightarrow> Inl e
      | Inr steps \<Rightarrow>
          let (xf, yf) = forward_path ops m steps;
              (xs, ys) = (if isRoundTrip m then (xf @ rev xf, yf @ rev yf) else (xf, yf))
          in (case (xs, ys) of
                (x0 # _, y0 # _) \<Rightarrow>
                  Inr (steps,
                       \<lparr>mote_id = mote_index, x_full = xs, y_full = ys, time_step = timeStep m\<rparr>,
                       (x0, y0))
              | _ \<Rightarrow> Inl IndexError))"

text \<open>The loop state: \<open>mote_index\<close>, \<open>max_steps\<close>, \<open>mobile_trajectories\<close>, \<open>mobile_start_positions\<close>.\<close>

fun synthesize_all ::
  "float_ops \<Rightarrow> mobile_mote list \<Rightarrow> nat \<times> nat \<times> trajectory list \<times> (real \<times> real) list
     \<Rightarrow> synth_error + (nat \<times> nat \<times> trajectory list \<times> (real \<times> real) list)" where
  "synthesize_all ops [] st = Inr st"
| "synthesize_all ops (m # ms) (mote_index, max_steps, trajs, starts) =
     (case synthesize_mote ops mote_index m of
        Inl e \<Rightarrow> Inl e
      | Inr (steps, tr, start) \<Rightarrow>
          synthesize_all ops ms
            (mote_index + 1, max max_steps steps, trajs @ [tr], starts @ [start]))"

text \<open>
  The inner loop of the merge: the lines of one global step. A line holds the numbers
  that the file shows with 8 and 2 decimals; the time is the product \<open>step * time_step\<close>
  in doubles.
\<close>

fun emit_step :: "float_ops \<Rightarrow> nat \<Rightarrow> trajectory list \<Rightarrow> position_sample list" where
  "emit_step ops step [] = []"
| "emit_step ops step (tr # trs) =
     (if step < length (x_full tr)
      then \<lparr>sample_mote = mote_id tr, elapsed = fmul ops (real step) (time_step tr),
            pos_x = x_full tr ! step, pos_y = y_full tr ! step\<rparr> # emit_step ops step trs
      else emit_step ops step trs)"

definition emit_trace ::
  "float_ops \<Rightarrow> nat \<Rightarrow> trajectory list \<Rightarrow> position_sample list list" where
  "emit_trace ops max_steps trajs = map (\<lambda>step. emit_step ops step trajs) [0..<2 * max_steps]"

text \<open>
  The function returns the fixed positions and the start positions; the third component
  is the mobile part of the file it writes, one block of lines for each global step.
\<close>

definition generate_positions ::
  "float_ops \<Rightarrow> (real \<times> real) list \<Rightarrow> mobile_mote list
     \<Rightarrow> synth_error + ((real \<times> real) list \<times> (real \<times> real) list \<times> position_sample list list)" where
  "generate_positions ops fixed_positions mobile_motes =
     (case synthesize_all ops mobile_motes (length fixed_positions, 0, [], []) of
        Inl e \<Rightarrow> Inl e
      | Inr (mote_index, max_steps, trajs, starts) \<Rightarrow>
          Inr (fixed_positions, starts, emit_trace ops max_steps trajs))"

subsection \<open>Sample counts and the round trip\<close>

text \<open>
  \<open>x_full\<close> and \<open>y_full\<close> of a synthesized trajectory have the same length, so the merge
  reads \<open>y_full[step]\<close> in range whenever \<open>step < len(x_full)\<close>.
\<close>

lemma length_linspace01 [simp]: "length (linspace01 ops n) = n"
  by (simp add: linspace01_def Let_def)

lemma length_resample [simp]: "length (resample ops n vals) = n"
  by (simp add: resample_def np_interp_def)

lemma nat_max_one_pos: "1 \<le> nat (max 1 z)"
  by linarith

lemma seg_steps_pos: "1 \<le> seg_steps ops d td steps"
  using nat_max_one_pos by (simp add: seg_steps_def Let_def del: One_nat_def)

lemma resampled_segments_distances:
  "resampled_segments ops m steps
     = map (\<lambda>(x_vals, y_vals).
              let n = seg_steps ops (segment_distance ops x_vals y_vals) (total_distance ops m) steps
              in (resample ops n x_vals, resample ops n y_vals))
           (sample_segments ops m)"
  by (simp add: resampled_segments_def segment_distances_def zip_map2 zip_same_conv_map o_def
                case_prod_beta)

lemma resampled_lengths:
  "map (\<lambda>(xs, ys). (length xs, length ys)) (resampled_segments ops m steps)
     = map (\<lambda>d. (seg_steps ops d (total_distance ops m) steps,
                  seg_steps ops d (total_distance ops m) steps))
           (segment_distances ops m)"
  by (simp add: resampled_segments_distances segment_distances_def o_def case_prod_beta Let_def)

lemma length_forward_path:
  "length (fst (forward_path ops m steps))
     = sum_list (map (\<lambda>d. seg_steps ops d (total_distance ops m) steps) (segment_distances ops m))"
  "length (snd (forward_path ops m steps))
     = sum_list (map (\<lambda>d. seg_steps ops d (total_distance ops m) steps) (segment_distances ops m))"
  by (simp_all add: forward_path_def resampled_segments_distances segment_distances_def
                    length_concat o_def case_prod_beta Let_def)

lemma mirror_nth:
  "i < length xs \<Longrightarrow> (xs @ rev xs) ! (length (xs @ rev xs) - 1 - i) = (xs @ rev xs) ! i"
proof -
  assume i: "i < length xs"
  let ?n = "length xs"
  have "length (xs @ rev xs) - 1 - i = ?n + (?n - 1 - i)" using i by simp
  then have "(xs @ rev xs) ! (length (xs @ rev xs) - 1 - i) = rev xs ! (?n - 1 - i)"
    by (simp add: nth_append)
  also have "\<dots> = xs ! i" using i by (simp add: rev_nth)
  also have "\<dots> = (xs @ rev xs) ! i" using i by (simp add: nth_append)
  finally show ?thesis .
qed

lemma synthesize_mote_round_trip:
  assumes "synthesize_mote ops idx m = Inr (steps, tr, start)" and "isRoundTrip m"
  shows "x_full tr = fst (forward_path ops m steps) @ rev (fst (forward_path ops m steps))"
    and "y_full tr = snd (forward_path ops m steps) @ rev (snd (forward_path ops m steps))"
    and "mote_id tr = idx" and "time_step tr = timeStep m"
  using assms
  by (auto simp: synthesize_mote_def Let_def case_prod_beta
           split: sum.splits list.splits if_splits)

lemma forward_path_nonempty:
  assumes "functionPath m \<noteq> []"
  shows "1 \<le> length (fst (forward_path ops m steps))"
proof -
  from assms obtain d ds where "segment_distances ops m = d # ds"
    by (cases "functionPath m") (auto simp: segment_distances_def sample_segments_def)
  then show ?thesis
    using seg_steps_pos [of ops d "total_distance ops m" steps]
    by (simp add: length_forward_path)
qed

lemma empty_path_raises:
  "synthesize_mote ops idx \<lparr>functionPath = [], speed = 1, timeStep = 1, isRoundTrip = rt\<rparr>
     = Inl IndexError"
  by (simp add: synthesize_mote_def total_steps_def forward_path_def resampled_segments_def
                sample_segments_def Let_def)

lemma synthesize_mote_ok:
  assumes "total_steps ops m = Inr steps" and "functionPath m \<noteq> []"
  shows "\<exists>tr start. synthesize_mote ops idx m = Inr (steps, tr, start)"
proof -
  from forward_path_nonempty [OF assms(2), of ops steps]
  have "0 < length (fst (forward_path ops m steps))" "0 < length (snd (forward_path ops m steps))"
    by (simp_all add: length_forward_path)
  then have "fst (forward_path ops m steps) \<noteq> []" "snd (forward_path ops m steps) \<noteq> []"
    by simp_all
  then obtain x0 xs y0 ys where
    "fst (forward_path ops m steps) = x0 # xs" "snd (forward_path ops m steps) = y0 # ys"
    by (auto simp: neq_Nil_conv)
  with assms(1) show ?thesis
    by (simp add: synthesize_mote_def Let_def case_prod_beta)
qed

text \<open>
  C6. For a mote whose round-trip flag is set and whose trajectory is synthesized: the
  trajectory has twice the samples of the forward trajectory, which is its first half; the
  position at index \<open>length - 1 - i\<close> is the position at index \<open>i\<close> for every index \<open>i\<close>
  of the forward half; and the elapsed time written for the sample at index \<open>k\<close> is \<open>k\<close>
  times the time step of the mote (the product in doubles), which grows with the index
  and is not mirrored.
\<close>

theorem round_trip_mirror:
  assumes "synthesize_mote ops idx m = Inr (steps, tr, start)" and "isRoundTrip m"
  shows "length (x_full tr) = 2 * length (fst (forward_path ops m steps))
     \<and> length (y_full tr) = length (x_full tr)
     \<and> take (length (fst (forward_path ops m steps))) (x_full tr) = fst (forward_path ops m steps)
     \<and> take (length (snd (forward_path ops m steps))) (y_full tr) = snd (forward_path ops m steps)
     \<and> (\<forall>i < length (fst (forward_path ops m steps)).
            x_full tr ! (length (x_full tr) - 1 - i) = x_full tr ! i
            \<and> y_full tr ! (length (y_full tr) - 1 - i) = y_full tr ! i)
     \<and> (\<forall>k < length (x_full tr).
            emit_step ops k [tr]
              = [\<lparr>sample_mote = idx, elapsed = fmul ops (real k) (timeStep m),
                  pos_x = x_full tr ! k, pos_y = y_full tr ! k\<rparr>])"
proof -
  note rt = synthesize_mote_round_trip [OF assms]
  have len: "length (snd (forward_path ops m steps)) = length (fst (forward_path ops m steps))"
    by (simp add: length_forward_path)
  have "\<forall>i < length (fst (forward_path ops m steps)).
          x_full tr ! (length (x_full tr) - 1 - i) = x_full tr ! i
          \<and> y_full tr ! (length (y_full tr) - 1 - i) = y_full tr ! i"
    unfolding rt(1,2) using mirror_nth len by metis
  moreover have "\<forall>k < length (x_full tr).
            emit_step ops k [tr]
              = [\<lparr>sample_mote = idx, elapsed = fmul ops (real k) (timeStep m),
                  pos_x = x_full tr ! k, pos_y = y_full tr ! k\<rparr>]"
    using rt(3,4) by simp
  ultimately show ?thesis
    using len by (simp add: rt(1,2))
qed

subsection \<open>Straight segments in exact arithmetic\<close>

lemma linspace01_exact:
  "linspace01 exact_ops num = (if num = 1 then [0] else map (\<lambda>k. real k / real (num - 1)) [0..<num])"
  by (auto simp: linspace01_def exact_ops_def Let_def list_eq_iff_nth_eq nth_list_update)

lemma np_diff_upt:
  "np_diff exact_ops (map g [0..<n]) = map (\<lambda>k. g (Suc k) - g k) [0..<n - 1]"
  by (auto simp: np_diff_def exact_ops_def list_eq_iff_nth_eq nth_tl)

lemma segment_distance_upt:
  "segment_distance exact_ops (map gx [0..<n]) (map gy [0..<n])
     = (\<Sum>k\<leftarrow>[0..<n - 1]. sqrt ((gx (Suc k) - gx k)\<^sup>2 + (gy (Suc k) - gy k)\<^sup>2))"
  by (simp add: segment_distance_def np_diff_upt zip_map_map zip_same_conv_map o_def)
     (simp add: exact_ops_def power2_eq_square)

text \<open>
  A straight segment from \<open>(x0, y0)\<close> along the x axis, of length \<open>a\<close>, as the expressions
  \<open>x0 + a*t\<close> and \<open>y0\<close>.
\<close>

definition straight :: "real \<Rightarrow> real \<Rightarrow> real \<Rightarrow> (real \<Rightarrow> real) \<times> (real \<Rightarrow> real)" where
  "straight x0 y0 a = ((\<lambda>t. x0 + a * t), (\<lambda>t. y0))"

lemma straight_distance:
  "segment_distance exact_ops
     (evaluate_function (fst (straight x0 y0 a)) (linspace01 exact_ops 100))
     (evaluate_function (snd (straight x0 y0 a)) (linspace01 exact_ops 100)) = \<bar>a\<bar>"
proof -
  have step: "sqrt ((x0 + a * (real (Suc k) / 99) - (x0 + a * (real k / 99)))\<^sup>2 + (y0 - y0)\<^sup>2)
                = \<bar>a\<bar> / 99"
    for k :: nat
  proof -
    have "x0 + a * (real (Suc k) / 99) - (x0 + a * (real k / 99)) = a / 99"
      by (simp add: field_simps)
    then have "sqrt ((x0 + a * (real (Suc k) / 99) - (x0 + a * (real k / 99)))\<^sup>2 + (y0 - y0)\<^sup>2)
                 = sqrt ((a / 99)\<^sup>2)"
      by (simp only: diff_self zero_power2 add_0_right)
    also have "\<dots> = \<bar>a\<bar> / 99" by simp
    finally show ?thesis .
  qed
  have xs: "evaluate_function (fst (straight x0 y0 a)) (linspace01 exact_ops 100)
              = map (\<lambda>k. x0 + a * (real k / 99)) [0..<100]"
    by (simp add: evaluate_function_def linspace01_exact straight_def o_def)
  have ys: "evaluate_function (snd (straight x0 y0 a)) (linspace01 exact_ops 100)
              = map (\<lambda>k. y0) [0..<100]"
    by (simp add: evaluate_function_def linspace01_exact straight_def o_def)
  have "segment_distance exact_ops (map (\<lambda>k. x0 + a * (real k / 99)) [0..<100])
                                   (map (\<lambda>k. y0) [0..<100])
          = (\<Sum>k\<leftarrow>[0..<100 - 1].
               sqrt ((x0 + a * (real (Suc k) / 99) - (x0 + a * (real k / 99)))\<^sup>2 + (y0 - y0)\<^sup>2))"
    by (rule segment_distance_upt)
  also have "\<dots> = (\<Sum>k\<leftarrow>[0..<100 - 1]. \<bar>a\<bar> / 99)"
    by (simp only: step)
  also have "\<dots> = \<bar>a\<bar>"
    by (simp add: sum_list_triv)
  finally show ?thesis by (simp only: xs ys)
qed

lemma sample_segments_straight:
  "segment_distances exact_ops
     \<lparr>functionPath = map (\<lambda>(x0, y0, a). straight x0 y0 a) segs,
      speed = v, timeStep = dt, isRoundTrip = rt\<rparr>
     = map (\<lambda>(x0, y0, a). \<bar>a\<bar>) segs"
  using straight_distance
  by (simp add: segment_distances_def sample_segments_def o_def case_prod_beta Let_def)

subsection \<open>Step allocation\<close>

lemma py_int_truncates:
  "\<bar>real_of_int (py_int x)\<bar> \<le> \<bar>x\<bar> \<and> \<bar>x - real_of_int (py_int x)\<bar> < 1"
  unfolding py_int_def by (cases "0 \<le> x") (simp_all, linarith+)

lemma total_steps_pos: "total_steps ops m = Inr steps \<Longrightarrow> 1 \<le> steps"
  using nat_max_one_pos by (auto simp: total_steps_def Let_def split: if_splits)

lemma total_steps_zero_distance:
  assumes "total_steps ops m = Inr steps" and "total_distance ops m = 0"
    and "fdiv ops 0 (speed m) = 0" and "fdiv ops 0 (timeStep m) = 0"
  shows "steps = 1"
  using assms by (auto simp: total_steps_def Let_def py_int_def split: if_splits)

lemma resample_one: "resample exact_ops 1 (map g [0..<100]) = [g 0]"
proof -
  have "[0..<100] = 0 # 1 # [2..<100]"
    by (simp add: upt_conv_Cons)
  then have "zip (linspace01 exact_ops 100) (map g [0..<100])
               = (0, g 0) # (1 / 99, g 1) # zip (map (\<lambda>k. real k / 99) [2..<100]) (map g [2..<100])"
    by (simp add: linspace01_exact)
  then show ?thesis
    by (simp add: resample_def np_interp_def linspace01_exact)
qed

text \<open>
  Four concrete motes. \<open>shuttle\<close> runs 99 units at speed 30 and back; \<open>two_leg\<close> runs a
  leg of 99 and a leg of 297 units at speed 1 with time step 72; \<open>hops\<close> runs three legs
  of one unit each at speed 3; \<open>parked\<close> does not move.
\<close>

definition shuttle :: mobile_mote where
  "shuttle = \<lparr>functionPath = [straight 0 0 99], speed = 30, timeStep = 1, isRoundTrip = True\<rparr>"

definition two_leg :: mobile_mote where
  "two_leg = \<lparr>functionPath = [straight 0 0 99, straight 99 0 297],
               speed = 1, timeStep = 72, isRoundTrip = False\<rparr>"

definition hops :: mobile_mote where
  "hops = \<lparr>functionPath = [straight 0 0 1, straight 1 0 1, straight 2 0 1],
            speed = 3, timeStep = 1, isRoundTrip = False\<rparr>"

definition parked :: mobile_mote where
  "parked = \<lparr>functionPath = [straight 5 5 0, straight 5 5 0],
              speed = 1, timeStep = 1, isRoundTrip = False\<rparr>"

lemma segment_distances_shuttle: "segment_distances exact_ops shuttle = [99]"
  using sample_segments_straight [of "[(0, 0, 99)]" 30 1 True] by (simp add: shuttle_def)

lemma segment_distances_two_leg: "segment_distances exact_ops two_leg = [99, 297]"
  using sample_segments_straight [of "[(0, 0, 99), (99, 0, 297)]" 1 72 False]
  by (simp add: two_leg_def)

lemma segment_distances_hops: "segment_distances exact_ops hops = [1, 1, 1]"
  using sample_segments_straight [of "[(0, 0, 1), (1, 0, 1), (2, 0, 1)]" 3 1 False]
  by (simp add: hops_def)

lemma segment_distances_parked: "segment_distances exact_ops parked = [0, 0]"
  using sample_segments_straight [of "[(5, 5, 0), (5, 5, 0)]" 1 1 False]
  by (simp add: parked_def)

lemma total_distance_exact: "total_distance exact_ops m = sum_list (segment_distances exact_ops m)"
  by (simp add: total_distance_def exact_ops_def)

lemma total_steps_exact:
  "total_steps exact_ops m =
     (if speed m = 0
      then Inl (if total_distance exact_ops m = 0 then ValueError else OverflowError)
      else if timeStep m = 0
           then Inl (if total_distance exact_ops m / speed m = 0 then ValueError else OverflowError)
           else Inr (nat (max 1 (py_int (total_distance exact_ops m / speed m / timeStep m)))))"
  by (simp add: total_steps_def Let_def exact_ops_def)

lemma seg_steps_exact:
  "seg_steps exact_ops d td steps
     = (if td > 0 then nat (max 1 (py_int (d / td * real steps))) else nat (max 1 (int steps)))"
  by (simp add: seg_steps_def exact_ops_def)

lemma total_steps_shuttle: "total_steps exact_ops shuttle = Inr 3"
proof -
  have "\<lfloor>(33 :: real) / 10\<rfloor> = 3" by linarith
  then show ?thesis
    by (simp add: total_steps_exact total_distance_exact segment_distances_shuttle)
       (simp add: shuttle_def py_int_def)
qed

lemma total_steps_two_leg: "total_steps exact_ops two_leg = Inr 5"
proof -
  have "\<lfloor>(11 :: real) / 2\<rfloor> = 5" by linarith
  then show ?thesis
    by (simp add: total_steps_exact total_distance_exact segment_distances_two_leg)
       (simp add: two_leg_def py_int_def)
qed

lemma total_steps_hops: "total_steps exact_ops hops = Inr 1"
  by (simp add: total_steps_exact total_distance_exact segment_distances_hops)
     (simp add: hops_def py_int_def)

lemma total_steps_parked: "total_steps exact_ops parked = Inr 1"
  by (simp add: total_steps_exact total_distance_exact segment_distances_parked)
     (simp add: parked_def py_int_def)

theorem round_trip_mirror_witness:
  "isRoundTrip shuttle
   \<and> (\<exists>tr start.
         synthesize_mote exact_ops 0 shuttle = Inr (3, tr, start)
         \<and> length (fst (forward_path exact_ops shuttle 3)) = 3
         \<and> length (x_full tr) = 2 * length (fst (forward_path exact_ops shuttle 3))
         \<and> length (y_full tr) = length (x_full tr)
         \<and> (\<forall>i < length (fst (forward_path exact_ops shuttle 3)).
                x_full tr ! (length (x_full tr) - 1 - i) = x_full tr ! i
                \<and> y_full tr ! (length (y_full tr) - 1 - i) = y_full tr ! i))"
proof -
  have rt: "isRoundTrip shuttle" by (simp add: shuttle_def)
  have "functionPath shuttle \<noteq> []" by (simp add: shuttle_def)
  from synthesize_mote_ok [OF total_steps_shuttle this, of 0] obtain tr start where
    s: "synthesize_mote exact_ops 0 shuttle = Inr (3, tr, start)"
    by blast
  have "\<lfloor>3 :: real\<rfloor> = 3" by simp
  then have len: "length (fst (forward_path exact_ops shuttle 3)) = 3"
    by (simp add: length_forward_path segment_distances_shuttle total_distance_exact
                  seg_steps_exact py_int_def)
  from round_trip_mirror [OF s rt] s len rt show ?thesis by blast
qed

text \<open>
  C2, as amended. Once the step budget of a mote is defined, the segment of arc length
  \<open>d\<close> is resampled at \<open>max(1, int(proportion * total_steps))\<close> points, in x and in y, where
  \<open>proportion\<close> is the double \<open>d / total_distance\<close> and the product is a double, when the
  total arc length is positive. \<open>int\<close> truncates towards zero and does not round. When the
  total arc length is not positive the proportion is 1 and every segment receives the
  whole budget, which is 1 when the arc length is zero and zero divided by the speed and by
  the time step is zero. The allocation raises nothing: the trajectory of a mote with at
  least one segment is synthesized.
\<close>

theorem segment_steps_truncated:
  assumes "total_steps ops m = Inr steps"
  shows "(0 < total_distance ops m \<longrightarrow>
            map (\<lambda>(xs, ys). (length xs, length ys)) (resampled_segments ops m steps)
              = map (\<lambda>d. let proportion = fdiv ops d (total_distance ops m);
                              n = nat (max 1 (py_int (fmul ops proportion (real steps))))
                          in (n, n))
                    (segment_distances ops m))
     \<and> (\<not> 0 < total_distance ops m \<longrightarrow>
            map (\<lambda>(xs, ys). (length xs, length ys)) (resampled_segments ops m steps)
              = map (\<lambda>d. (steps, steps)) (segment_distances ops m))
     \<and> (\<forall>x. \<bar>real_of_int (py_int x)\<bar> \<le> \<bar>x\<bar> \<and> \<bar>x - real_of_int (py_int x)\<bar> < 1)
     \<and> (total_distance ops m = 0 \<and> fdiv ops 0 (speed m) = 0 \<and> fdiv ops 0 (timeStep m) = 0
          \<longrightarrow> steps = 1)
     \<and> (functionPath m \<noteq> []
          \<longrightarrow> (\<exists>tr start. synthesize_mote ops idx m = Inr (steps, tr, start)))"
proof (intro conjI impI allI)
  assume "0 < total_distance ops m"
  then show "map (\<lambda>(xs, ys). (length xs, length ys)) (resampled_segments ops m steps)
              = map (\<lambda>d. let proportion = fdiv ops d (total_distance ops m);
                              n = nat (max 1 (py_int (fmul ops proportion (real steps))))
                          in (n, n))
                    (segment_distances ops m)"
    by (simp add: resampled_lengths seg_steps_def Let_def)
next
  assume "\<not> 0 < total_distance ops m"
  moreover from assms have "1 \<le> steps" by (rule total_steps_pos)
  ultimately show "map (\<lambda>(xs, ys). (length xs, length ys)) (resampled_segments ops m steps)
              = map (\<lambda>d. (steps, steps)) (segment_distances ops m)"
    by (simp add: resampled_lengths seg_steps_def Let_def)
next
  fix x :: real
  from py_int_truncates [of x] show "\<bar>real_of_int (py_int x)\<bar> \<le> \<bar>x\<bar>" by blast
  from py_int_truncates [of x] show "\<bar>x - real_of_int (py_int x)\<bar> < 1" by blast
next
  assume "total_distance ops m = 0 \<and> fdiv ops 0 (speed m) = 0 \<and> fdiv ops 0 (timeStep m) = 0"
  then show "steps = 1" using total_steps_zero_distance [OF assms] by blast
next
  assume "functionPath m \<noteq> []"
  with assms show "\<exists>tr start. synthesize_mote ops idx m = Inr (steps, tr, start)"
    by (rule synthesize_mote_ok)
qed

theorem segment_steps_truncated_witness:
  "total_steps exact_ops two_leg = Inr 5 \<and> 0 < total_distance exact_ops two_leg
   \<and> functionPath two_leg \<noteq> []
   \<and> map (\<lambda>(xs, ys). (length xs, length ys)) (resampled_segments exact_ops two_leg 5)
       = map (\<lambda>d. let proportion = fdiv exact_ops d (total_distance exact_ops two_leg);
                       n = nat (max 1 (py_int (fmul exact_ops proportion (real 5))))
                   in (n, n))
             (segment_distances exact_ops two_leg)
   \<and> (\<exists>tr start. synthesize_mote exact_ops 0 two_leg = Inr (5, tr, start))
   \<and> total_steps exact_ops parked = Inr 1 \<and> \<not> 0 < total_distance exact_ops parked
   \<and> map (\<lambda>(xs, ys). (length xs, length ys)) (resampled_segments exact_ops parked 1)
       = map (\<lambda>d. (1, 1)) (segment_distances exact_ops parked)"
proof -
  have p: "0 < total_distance exact_ops two_leg"
    by (simp add: total_distance_exact segment_distances_two_leg)
  have n: "functionPath two_leg \<noteq> []" by (simp add: two_leg_def)
  have z: "\<not> 0 < total_distance exact_ops parked"
    by (simp add: total_distance_exact segment_distances_parked)
  note a = segment_steps_truncated [OF total_steps_two_leg, of 0]
  note b = segment_steps_truncated [OF total_steps_parked, of 0]
  from a p have a1:
    "map (\<lambda>(xs, ys). (length xs, length ys)) (resampled_segments exact_ops two_leg 5)
       = map (\<lambda>d. let proportion = fdiv exact_ops d (total_distance exact_ops two_leg);
                       n = nat (max 1 (py_int (fmul exact_ops proportion (real 5))))
                   in (n, n))
             (segment_distances exact_ops two_leg)"
    by blast
  from a n have a2: "\<exists>tr start. synthesize_mote exact_ops 0 two_leg = Inr (5, tr, start)"
    by blast
  from b z have b1:
    "map (\<lambda>(xs, ys). (length xs, length ys)) (resampled_segments exact_ops parked 1)
       = map (\<lambda>d. (1, 1)) (segment_distances exact_ops parked)"
    by blast
  show ?thesis
    by (intro conjI total_steps_two_leg p n a1 a2 total_steps_parked z b1)
qed

text \<open>
  C2 as written fails: with a budget of 5 steps and legs of 99 and 297 units, the second
  leg is resampled at \<open>int(3.75) = 3\<close> points, where rounding would give 4. No operation
  on the way comes near a value at which the rounding of doubles could change the count.
\<close>

theorem allocation_is_not_rounded:
  "total_steps exact_ops two_leg = Inr 5
   \<and> segment_distances exact_ops two_leg = [99, 297]
   \<and> map (\<lambda>(xs, ys). (length xs, length ys)) (resampled_segments exact_ops two_leg 5)
       = [(1, 1), (3, 3)]
   \<and> map (\<lambda>d. nat (max 1 (round (fmul exact_ops (fdiv exact_ops d (total_distance exact_ops two_leg))
                                        (real 5)))))
         (segment_distances exact_ops two_leg)
       = [1, 4]"
proof -
  have "\<lfloor>(5 :: real) / 4\<rfloor> = 1" "\<lfloor>(15 :: real) / 4\<rfloor> = 3" by linarith+
  then have "map (\<lambda>(xs, ys). (length xs, length ys)) (resampled_segments exact_ops two_leg 5)
               = [(1, 1), (3, 3)]"
    by (simp add: resampled_lengths segment_distances_two_leg total_distance_exact
                  seg_steps_exact py_int_def)
  moreover have "round ((5 :: real) / 4) = 1" "round ((15 :: real) / 4) = 4"
    by (simp_all add: round_def)
  then have "map (\<lambda>d. nat (max 1 (round (fmul exact_ops
                                      (fdiv exact_ops d (total_distance exact_ops two_leg)) (real 5)))))
                 (segment_distances exact_ops two_leg) = [1, 4]"
    by (simp add: segment_distances_two_leg total_distance_exact exact_ops_sel)
  ultimately show ?thesis
    by (simp add: total_steps_two_leg segment_distances_two_leg)
qed

subsection \<open>The merged trace\<close>

text \<open>The line that the merge writes for a trajectory at a global step.\<close>

definition sample_at :: "float_ops \<Rightarrow> nat \<Rightarrow> trajectory \<Rightarrow> position_sample" where
  "sample_at ops step tr =
     \<lparr>sample_mote = mote_id tr, elapsed = fmul ops (real step) (time_step tr),
      pos_x = x_full tr ! step, pos_y = y_full tr ! step\<rparr>"

lemma emit_step_filter:
  "emit_step ops step trajs
     = map (sample_at ops step) [tr \<leftarrow> trajs. step < length (x_full tr)]"
  by (induction trajs) (simp_all add: sample_at_def)

lemma fold_max_Max: "fold max xs (a :: nat) = Max (set (a # xs))"
proof (induction xs arbitrary: a)
  case Nil
  show ?case by simp
next
  case (Cons x xs)
  have "fold max (x # xs) a = Max (set (max x a # xs))"
    by (simp add: Cons.IH)
  also have "\<dots> = Max (insert a (insert x (set xs)))"
    by (cases "xs = []") (simp_all add: max.assoc max.commute)
  finally show ?case by simp
qed

lemma synthesize_all_Inr:
  "synthesize_all ops ms (i0, mx0, trajs0, starts0) = Inr (i, mx, trajs, starts) \<Longrightarrow>
     \<exists>budgets new_trajs new_starts.
        length budgets = length ms \<and> length new_trajs = length ms \<and> length new_starts = length ms
        \<and> (\<forall>k < length ms.
               synthesize_mote ops (i0 + k) (ms ! k)
                 = Inr (budgets ! k, new_trajs ! k, new_starts ! k))
        \<and> i = i0 + length ms \<and> mx = fold max budgets mx0
        \<and> trajs = trajs0 @ new_trajs \<and> starts = starts0 @ new_starts"
proof (induction ms arbitrary: i0 mx0 trajs0 starts0)
  case Nil
  then show ?case by simp
next
  case (Cons m ms)
  from Cons.prems obtain b tr st where
    m: "synthesize_mote ops i0 m = Inr (b, tr, st)"
    and rest: "synthesize_all ops ms (i0 + 1, max mx0 b, trajs0 @ [tr], starts0 @ [st])
                 = Inr (i, mx, trajs, starts)"
    by (auto split: sum.splits)
  from Cons.IH [OF rest] obtain budgets new_trajs new_starts where
    len: "length budgets = length ms" "length new_trajs = length ms" "length new_starts = length ms"
    and each: "\<forall>k < length ms.
                 synthesize_mote ops (i0 + 1 + k) (ms ! k)
                   = Inr (budgets ! k, new_trajs ! k, new_starts ! k)"
    and fin: "i = i0 + 1 + length ms" "mx = fold max budgets (max mx0 b)"
             "trajs = (trajs0 @ [tr]) @ new_trajs" "starts = (starts0 @ [st]) @ new_starts"
    by blast
  have "\<forall>k < length (m # ms).
          synthesize_mote ops (i0 + k) ((m # ms) ! k)
            = Inr ((b # budgets) ! k, (tr # new_trajs) ! k, (st # new_starts) ! k)"
  proof (intro allI impI)
    fix k assume "k < length (m # ms)"
    then show "synthesize_mote ops (i0 + k) ((m # ms) ! k)
                 = Inr ((b # budgets) ! k, (tr # new_trajs) ! k, (st # new_starts) ! k)"
      using m each by (cases k) simp_all
  qed
  moreover have "mx = fold max (b # budgets) mx0"
    using fin(2) by (simp add: max.commute)
  ultimately show ?case
    using len fin(1,3,4)
    by (intro exI [of _ "b # budgets"] exI [of _ "tr # new_trajs"] exI [of _ "st # new_starts"])
       simp
qed

text \<open>
  The trace that the merge writes: with the budget, the trajectory and the start position
  that the loop body returns for each mote, \<open>max_steps\<close> is the maximum of the budgets, the
  trace has \<open>2 * max_steps\<close> blocks, and the block of a step holds, in mote order, the
  sample at that index of every trajectory that has one.
\<close>

lemma merged_trace:
  assumes "generate_positions ops fixed mobiles = Inr (fixed', starts, trace)"
  shows "\<exists>budgets trajs.
           length budgets = length mobiles \<and> length trajs = length mobiles
         \<and> (\<forall>k < length mobiles.
                synthesize_mote ops (length fixed + k) (mobiles ! k)
                  = Inr (budgets ! k, trajs ! k, starts ! k))
         \<and> length trace = 2 * Max (set (0 # budgets))
         \<and> (\<forall>step < length trace.
                trace ! step
                  = map (sample_at ops step) [tr \<leftarrow> trajs. step < length (x_full tr)])"
proof -
  from assms obtain i mx trajs where
    all: "synthesize_all ops mobiles (length fixed, 0, [], []) = Inr (i, mx, trajs, starts)"
    and tr: "trace = emit_trace ops mx trajs"
    by (auto simp: generate_positions_def split: sum.splits)
  from synthesize_all_Inr [OF all] obtain budgets new_trajs new_starts where
    len: "length budgets = length mobiles" "length new_trajs = length mobiles"
    and each: "\<forall>k < length mobiles.
                 synthesize_mote ops (length fixed + k) (mobiles ! k)
                   = Inr (budgets ! k, new_trajs ! k, new_starts ! k)"
    and mx: "mx = fold max budgets 0" and trajs: "trajs = [] @ new_trajs"
    and starts: "starts = [] @ new_starts"
    by blast
  have l: "length trace = 2 * Max (set (0 # budgets))"
    by (simp add: tr emit_trace_def mx fold_max_Max)
  have "\<forall>step < length trace.
          trace ! step
                  = map (sample_at ops step) [tr \<leftarrow> trajs. step < length (x_full tr)]"
    by (simp add: tr emit_trace_def emit_step_filter)
  with len each l trajs starts show ?thesis by auto
qed

lemma resample_one_expr:
  "resample exact_ops (Suc 0) (evaluate_function e (linspace01 exact_ops 100)) = [e 0]"
proof -
  have "evaluate_function e (linspace01 exact_ops 100) = map (\<lambda>k. e (real k / 99)) [0..<100]"
    by (simp add: evaluate_function_def linspace01_exact o_def)
  then show ?thesis
    using resample_one [of "\<lambda>k. e (real k / 99)"] by simp
qed

lemma forward_path_hops: "forward_path exact_ops hops (Suc 0) = ([0, 1, 2], [0, 0, 0])"
proof -
  have d: "total_distance exact_ops hops = 3"
    by (simp add: total_distance_exact segment_distances_hops)
  have "\<lfloor>(1 :: real) / 3\<rfloor> = 0" by linarith
  then have one: "seg_steps exact_ops 1 3 (Suc 0) = Suc 0"
    by (simp add: seg_steps_exact py_int_def)
  have "forward_path exact_ops hops (Suc 0)
          = ([fst (straight 0 0 1) 0, fst (straight 1 0 1) 0, fst (straight 2 0 1) 0],
             [snd (straight 0 0 1) 0, snd (straight 1 0 1) 0, snd (straight 2 0 1) 0])"
    unfolding forward_path_def resampled_segments_distances d
    by (simp add: sample_segments_def hops_def case_prod_beta Let_def straight_distance one
                  resample_one_expr)
  then show ?thesis by (simp add: straight_def)
qed

text \<open>
  C3. The claim is that \<open>max_steps\<close> is the largest number of forward samples of a mote,
  so that the merge leaves no sample unwritten. The code takes the largest step budget
  instead. For \<open>hops\<close> the budget is \<open>max(1, int(3 / 3 / 1)) = 1\<close>, each of the three legs
  receives \<open>max(1, int(1/3)) = 1\<close> point, the forward trajectory has the samples at
  \<open>(0, 0)\<close>, \<open>(1, 0)\<close> and \<open>(2, 0)\<close>, the global step runs over 0 and 1 only, and the sample
  at \<open>(2, 0)\<close> is never written. The doubles of the machine give the same budget, counts and
  positions.
\<close>

theorem third_sample_not_emitted:
  "total_steps exact_ops hops = Inr 1
   \<and> forward_path exact_ops hops 1 = ([0, 1, 2], [0, 0, 0])
   \<and> generate_positions exact_ops [] [hops]
       = Inr ([], [(0, 0)],
              [[\<lparr>sample_mote = 0, elapsed = 0, pos_x = 0, pos_y = 0\<rparr>],
               [\<lparr>sample_mote = 0, elapsed = 1, pos_x = 1, pos_y = 0\<rparr>]])"
proof -
  have "[0..<2] = [0, 1]" by (simp add: upt_conv_Cons)
  then show ?thesis
    by (simp add: total_steps_hops forward_path_hops generate_positions_def synthesize_mote_def
                  emit_trace_def)
       (simp add: hops_def exact_ops_sel)
qed

end
